theory Spec2Isabelle
  imports Complex_Main "HOL-Library.Multiset" "HOL-Library.Sublist"
begin

chapter \<open>The program\<close>

section \<open>JavaScript strings\<close>

text \<open>
  The scripts run on a JavaScript engine, whose strings are sequences of UTF-16 code
  units. A string is modelled as the list of its code units (natural numbers below
  65536); \<open>js\<close> embeds an ASCII literal. A character outside the Basic Multilingual
  Plane is two code units (a surrogate pair), exactly as the regular expressions of the
  scripts, none of which carries the \<open>u\<close> flag, see it.
\<close>

type_synonym jschar = nat
type_synonym jsstring = "nat list"

definition js :: "string \<Rightarrow> jsstring" where
  "js s = map of_char s"

text \<open>
  White space and line terminators of ECMAScript: the characters that \<open>\s\<close> matches
  and that \<open>String.prototype.trim\<close> strips.
\<close>

definition isWhiteSpace :: "jschar \<Rightarrow> bool" where
  "isWhiteSpace c \<longleftrightarrow>
     (9 \<le> c \<and> c \<le> 13) \<or> c = 32 \<or> c = 160 \<or> c = 5760 \<or> (8192 \<le> c \<and> c \<le> 8202) \<or>
     c = 8232 \<or> c = 8233 \<or> c = 8239 \<or> c = 8287 \<or> c = 12288 \<or> c = 65279"

definition trim :: "jsstring \<Rightarrow> jsstring" where
  "trim s = rev (dropWhile isWhiteSpace (rev (dropWhile isWhiteSpace s)))"

text \<open>
  Case conversion is modelled on Basic Latin and the Latin-1 Supplement, the repertoire
  of the Spanish names and day names the scripts process; code units above U+00FF are
  left unchanged. Lower-casing maps one code unit to one code unit in this range.
  Upper-casing can lengthen the string (U+00DF becomes "SS") and can leave the range
  (U+00FF, U+00B5).
\<close>

definition lowerChar :: "jschar \<Rightarrow> jschar" where
  "lowerChar c = (if (65 \<le> c \<and> c \<le> 90) \<or> (192 \<le> c \<and> c \<le> 222 \<and> c \<noteq> 215) then c + 32 else c)"

definition toLowerCase :: "jsstring \<Rightarrow> jsstring" where
  "toLowerCase s = map lowerChar s"

definition upperChar :: "jschar \<Rightarrow> jsstring" where
  "upperChar c =
     (if (97 \<le> c \<and> c \<le> 122) \<or> (224 \<le> c \<and> c \<le> 254 \<and> c \<noteq> 247) then [c - 32]
      else if c = 223 then [83, 83]
      else if c = 255 then [376]
      else if c = 181 then [924]
      else [c])"

definition toUpperCase :: "jsstring \<Rightarrow> jsstring" where
  "toUpperCase s = concat (map upperChar s)"

text \<open>\<open>Array.prototype.join\<close> on an array of strings.\<close>

fun join :: "jsstring \<Rightarrow> jsstring list \<Rightarrow> jsstring" where
  "join sep [] = []"
| "join sep [x] = x"
| "join sep (x # y # ys) = x @ sep @ join sep (y # ys)"

text \<open>\<open>String.prototype.split\<close> with a one-character separator: never an empty array.\<close>

fun split :: "jschar \<Rightarrow> jsstring \<Rightarrow> jsstring list" where
  "split sep [] = [[]]"
| "split sep (x # xs) =
     (if x = sep then [] # split sep xs
      else (case split sep xs of [] \<Rightarrow> [[x]] | w # ws \<Rightarrow> (x # w) # ws))"

text \<open>
  A JavaScript \<open>Set\<close> of strings keeps its members in insertion order; adding a member
  already present changes nothing. \<open>newSet xs\<close> is the spread \<open>[...new Set(xs)]\<close>.
\<close>

definition set_add :: "'a list \<Rightarrow> 'a \<Rightarrow> 'a list" where
  "set_add s x = (if x \<in> set s then s else s @ [x])"


datatype error = TypeError

section \<open>Regular expressions\<close>

text \<open>
  The regular expressions of the scripts are kept as data and run by one backtracking
  matcher. The constructs are those the scripts use: a character class (a predicate on
  code units; a literal character is a one-member class), a sequence, a quantifier
  \<open>{lo,hi}\<close> (\<open>hi = None\<close> for no upper bound; greedy or lazy), a numbered capture
  group, and the assertions \<open>^\<close> and \<open>$\<close> (no \<open>m\<close> flag anywhere).

  A matcher state is the index reached, the input left from there, and the captures
  made so far (the latest first). \<open>matches r st\<close> lists every way for \<open>r\<close> to match
  at \<open>st\<close>, in the order in which a backtracking engine tries them, so that its head is
  the match the engine reports. An iteration of a quantifier that consumes nothing is
  given up, as ECMAScript does once the lower bound is met; below the lower bound the
  two differ only for a body that can match the empty string, and every quantified
  body of the scripts is a character class. Likewise no group stands inside a
  quantifier, so the reset of captures at each iteration is not modelled.
\<close>

type_synonym caps = "(nat \<times> jsstring) list"
type_synonym mstate = "nat \<times> jsstring \<times> caps"

datatype re =
    Cls "jschar \<Rightarrow> bool"
  | Seq re re
  | Rep nat "nat option" bool re
  | Grp nat re
  | Bol
  | Eol

fun re_size :: "re \<Rightarrow> nat" where
  "re_size (Cls P) = 1"
| "re_size (Seq a b) = Suc (re_size a + re_size b)"
| "re_size (Rep lo hi g r) = Suc (re_size r)"
| "re_size (Grp n r) = Suc (re_size r)"
| "re_size Bol = 1"
| "re_size Eol = 1"

function matches :: "re \<Rightarrow> mstate \<Rightarrow> mstate list" where
  "matches (Cls P) (i, [], c) = []"
| "matches (Cls P) (i, x # xs, c) = (if P x then [(Suc i, xs, c)] else [])"
| "matches (Seq a b) st = concat (map (matches b) (matches a st))"
| "matches (Grp n r) (i, s, c) =
     map (\<lambda>(i', s', c'). (i', s', (n, take (i' - i) s) # c')) (matches r (i, s, c))"
| "matches Bol (i, s, c) = (if i = 0 then [(i, s, c)] else [])"
| "matches Eol (i, s, c) = (if s = [] then [(i, s, c)] else [])"
| "matches (Rep lo hi g r) (i, s, c) =
     (if hi = Some 0 then [(i, s, c)]
      else let more = concat (map (\<lambda>(i', s', c').
                         if length s' < length s
                         then matches (Rep (lo - 1) (map_option (\<lambda>h. h - 1) hi) g r) (i', s', c')
                         else [])
                       (matches r (i, s, c)));
               stop = (if lo = 0 then [(i, s, c)] else [])
           in if g then more @ stop else stop @ more)"
  by pat_completeness auto
termination
  by (relation "measures [\<lambda>(r, st). re_size r, \<lambda>(r, (i, s, c)). length s]") auto

text \<open>One attempt to match at a given index: the first way, if there is one.\<close>

definition first_way :: "re \<Rightarrow> mstate \<Rightarrow> mstate option" where
  "first_way r st = (case matches r st of [] \<Rightarrow> None | m # _ \<Rightarrow> Some m)"

definition attempt :: "re \<Rightarrow> nat \<Rightarrow> jsstring \<Rightarrow> mstate option" where
  "attempt r i s = first_way r (i, s, [])"

text \<open>
  \<open>leads r s c s' c'\<close>: wherever it starts, the first way for \<open>r\<close> to match on the
  input \<open>s\<close> with captures \<open>c\<close> leaves the input \<open>s'\<close> and the captures \<open>c'\<close>.
\<close>

definition leads :: "re \<Rightarrow> jsstring \<Rightarrow> caps \<Rightarrow> jsstring \<Rightarrow> caps \<Rightarrow> bool" where
  "leads r s c s' c' \<longleftrightarrow> (\<forall>i. \<exists>i'. first_way r (i, s, c) = Some (i', s', c'))"

text \<open>
  \<open>RegExp.prototype.exec\<close> without the \<open>g\<close> flag, as \<open>String.prototype.match\<close> and
  \<open>test\<close> call it: the attempts start at index 0 and move right, the end of the input
  included. The result is the start index and the state at the end of the match.
\<close>

fun search_from :: "re \<Rightarrow> nat \<Rightarrow> jsstring \<Rightarrow> (nat \<times> mstate) option" where
  "search_from r i [] = map_option (Pair i) (attempt r i [])"
| "search_from r i (x # xs) =
     (case attempt r i (x # xs) of
        Some m \<Rightarrow> Some (i, m)
      | None \<Rightarrow> search_from r (Suc i) xs)"

definition match :: "re \<Rightarrow> jsstring \<Rightarrow> caps option" where
  "match r s = map_option (\<lambda>(i, e, rest, c). (0, take (e - i) (drop i s)) # c) (search_from r 0 s)"

definition test :: "re \<Rightarrow> jsstring \<Rightarrow> bool" where
  "test r s \<longleftrightarrow> search_from r 0 s \<noteq> None"

text \<open>A capture of a match: \<open>None\<close> is JavaScript's \<open>undefined\<close>.\<close>

definition capture :: "caps \<Rightarrow> nat \<Rightarrow> jsstring option" where
  "capture c n = map_of c n"

text \<open>
  \<open>String.prototype.replace\<close> with a regular expression and a replacement string
  without \<open>$\<close> patterns: the first match only, or with the \<open>g\<close> flag every match from
  left to right, the search going on where the last match ended (one code unit further
  after an empty match).
\<close>

fun replaceFirst_from :: "re \<Rightarrow> jsstring \<Rightarrow> nat \<Rightarrow> jsstring \<Rightarrow> jsstring" where
  "replaceFirst_from r repl i [] = (case attempt r i [] of Some _ \<Rightarrow> repl | None \<Rightarrow> [])"
| "replaceFirst_from r repl i (x # xs) =
     (case attempt r i (x # xs) of
        Some (e, rest, c) \<Rightarrow> repl @ rest
      | None \<Rightarrow> x # replaceFirst_from r repl (Suc i) xs)"

definition replaceFirst :: "re \<Rightarrow> jsstring \<Rightarrow> jsstring \<Rightarrow> jsstring" where
  "replaceFirst r repl s = replaceFirst_from r repl 0 s"

function replaceAll_from :: "re \<Rightarrow> jsstring \<Rightarrow> nat \<Rightarrow> jsstring \<Rightarrow> jsstring" where
  "replaceAll_from r repl i [] = (case attempt r i [] of Some _ \<Rightarrow> repl | None \<Rightarrow> [])"
| "replaceAll_from r repl i (x # xs) =
     (case attempt r i (x # xs) of
        None \<Rightarrow> x # replaceAll_from r repl (Suc i) xs
      | Some (e, rest, c) \<Rightarrow>
          if length rest < Suc (length xs) then repl @ replaceAll_from r repl e rest
          else repl @ x # replaceAll_from r repl (Suc i) xs)"
  by pat_completeness auto
termination
  by (relation "measure (\<lambda>(r, repl, i, s). length s)") auto

definition replaceAll :: "re \<Rightarrow> jsstring \<Rightarrow> jsstring \<Rightarrow> jsstring" where
  "replaceAll r repl s = replaceAll_from r repl 0 s"

text \<open>The atoms the patterns are written with.\<close>

definition chr :: "jschar \<Rightarrow> re" where
  "chr k = Cls (\<lambda>c. c = k)"

definition isDigit :: "jschar \<Rightarrow> bool" where
  "isDigit c \<longleftrightarrow> 48 \<le> c \<and> c \<le> 57"


definition isLineTerminator :: "jschar \<Rightarrow> bool" where
  "isLineTerminator c \<longleftrightarrow> c = 10 \<or> c = 13 \<or> c = 8232 \<or> c = 8233"

text \<open>
  With the \<open>i\<close> flag two code units match when their canonical forms agree: the
  upper-case form, unless that is longer than one code unit or maps a non-ASCII
  character into ASCII.
\<close>

definition canonicalize :: "jschar \<Rightarrow> jschar" where
  "canonicalize c = (case upperChar c of [u] \<Rightarrow> (if 128 \<le> c \<and> u < 128 then c else u) | _ \<Rightarrow> c)"

definition ichr :: "jschar \<Rightarrow> re" where
  "ichr k = Cls (\<lambda>c. canonicalize c = canonicalize k)"

fun seqs :: "re list \<Rightarrow> re" where
  "seqs [] = Rep 0 (Some 0) True Bol"
| "seqs [r] = r"
| "seqs (r # rs) = Seq r (seqs rs)"

definition many :: "re \<Rightarrow> re" where "many r = Rep 0 None True r"
definition many1 :: "re \<Rightarrow> re" where "many1 r = Rep 1 None True r"
definition optional :: "re \<Rightarrow> re" where "optional r = Rep 0 (Some 1) True r"
definition lazy_many :: "re \<Rightarrow> re" where "lazy_many r = Rep 0 None False r"
definition between :: "nat \<Rightarrow> nat \<Rightarrow> re \<Rightarrow> re" where "between lo hi r = Rep lo (Some hi) True r"

section \<open>Assembling messages from the lines of a chat export (parse messages)\<close>

record WhatsAppMessage =
  timestamp :: jsstring
  sender :: jsstring
  content :: jsstring
  rawMessage :: jsstring

text \<open>
  The shared head of the two header patterns: \<open>^\[(date),\s*(time meridiem)\]\s*\<close>.
\<close>

definition digit :: re where
  "digit = Cls isDigit"

definition space :: re where
  "space = Cls isWhiteSpace"

definition dot :: re where
  "dot = Cls (\<lambda>c. \<not> isLineTerminator c)"

definition datePattern :: re where
  "datePattern = seqs [between 1 2 digit, chr 47, between 1 2 digit, chr 47, between 2 4 digit]"

definition headerStamp :: "re list" where
  "headerStamp =
     [Bol, chr 91, Grp 1 datePattern, chr 44, many space,
      Grp 2 (seqs [between 1 2 digit, chr 58, between 2 2 digit, chr 58, between 2 2 digit,
                   many space, Cls (\<lambda>c. c = 97 \<or> c = 112), chr 46, many space, chr 109, chr 46]),
      chr 93, many space]"

definition messagePattern :: re where
  "messagePattern =
     seqs (headerStamp @ [Grp 3 (many1 (Cls (\<lambda>c. c \<noteq> 58))), chr 58, many space, Grp 4 (many dot)])"

definition systemPattern :: re where
  "systemPattern =
     seqs (headerStamp @
       [Grp 3 (lazy_many (Cls (\<lambda>c. c \<noteq> 58))), chr 58, many space, chr 8206, Grp 4 (many dot), Eol])"

definition headerMatch :: "jsstring \<Rightarrow> caps option" where
  "headerMatch line =
     (case match messagePattern line of Some m \<Rightarrow> Some m | None \<Rightarrow> match systemPattern line)"

text \<open>A capture inside a template literal: \<open>undefined\<close> prints as that word.\<close>

definition str :: "jsstring option \<Rightarrow> jsstring" where
  "str v = (case v of None \<Rightarrow> js ''undefined'' | Some s \<Rightarrow> s)"

text \<open>
  One turn of the loop of \<open>parseFile\<close>. The state is the array \<open>this.messages\<close> and
  the message being buffered. \<open>sender.trim()\<close> on a capture that took no part in the
  match would raise a TypeError.
\<close>

definition parse_step ::
  "WhatsAppMessage list \<times> WhatsAppMessage option \<Rightarrow> jsstring \<Rightarrow>
   error + WhatsAppMessage list \<times> WhatsAppMessage option" where
  "parse_step st rawLine =
     (case st of (messages, currentMessage) \<Rightarrow>
      let line = trim rawLine in
      if line = [] then Inr st
      else case headerMatch line of
        Some m \<Rightarrow>
          (case capture m 3 of
             None \<Rightarrow> Inl TypeError
           | Some sndr \<Rightarrow>
               Inr ((case currentMessage of None \<Rightarrow> messages | Some cm \<Rightarrow> messages @ [cm]),
                    Some \<lparr>timestamp = str (capture m 1) @ js '', '' @ str (capture m 2),
                          sender = trim sndr,
                          content = (case capture m 4 of None \<Rightarrow> [] | Some c \<Rightarrow> c),
                          rawMessage = line\<rparr>))
      | None \<Rightarrow>
          (case currentMessage of
             Some cm \<Rightarrow>
               Inr (messages, Some (cm\<lparr>content := content cm @ [10] @ line,
                                        rawMessage := rawMessage cm @ [10] @ line\<rparr>))
           | None \<Rightarrow> Inr st))"

fun parse_loop ::
  "jsstring list \<Rightarrow> WhatsAppMessage list \<times> WhatsAppMessage option \<Rightarrow> error + WhatsAppMessage list" where
  "parse_loop [] st =
     (case st of (messages, currentMessage) \<Rightarrow>
        Inr (case currentMessage of None \<Rightarrow> messages | Some cm \<Rightarrow> messages @ [cm]))"
| "parse_loop (l # ls) st =
     (case parse_step st l of Inl e \<Rightarrow> Inl e | Inr st' \<Rightarrow> parse_loop ls st')"

text \<open>
  \<open>parseFile\<close>, from the array \<open>this.messages\<close> as it stands (empty for a new parser)
  and the text of the file (\<open>None\<close> when reading it raises). Any error is caught and
  answered by an empty array.
\<close>

definition parseFile :: "WhatsAppMessage list \<Rightarrow> jsstring option \<Rightarrow> WhatsAppMessage list" where
  "parseFile messages file =
     (case file of
        None \<Rightarrow> []
      | Some text \<Rightarrow>
          (case parse_loop (split 10 text) (messages, None) of Inl e \<Rightarrow> [] | Inr ms \<Rightarrow> ms))"

text \<open>
  The specification's wording of the assembly, on the trimmed non-blank lines: a line
  that matches a header starts a message; the lines after it up to the next header are
  appended to its content and raw text, each after a newline, in order; the lines
  before the first header are dropped.
\<close>

definition isHeader :: "jsstring \<Rightarrow> bool" where
  "isHeader line \<longleftrightarrow> headerMatch line \<noteq> None"

definition newMessage :: "jsstring \<Rightarrow> WhatsAppMessage" where
  "newMessage line =
     (case headerMatch line of
        None \<Rightarrow> \<lparr>timestamp = [], sender = [], content = [], rawMessage = line\<rparr>
      | Some m \<Rightarrow>
          \<lparr>timestamp = str (capture m 1) @ js '', '' @ str (capture m 2),
           sender = trim (str (capture m 3)),
           content = (case capture m 4 of None \<Rightarrow> [] | Some c \<Rightarrow> c),
           rawMessage = line\<rparr>)"

definition append_line :: "WhatsAppMessage \<Rightarrow> jsstring \<Rightarrow> WhatsAppMessage" where
  "append_line cm line =
     cm\<lparr>content := content cm @ [10] @ line, rawMessage := rawMessage cm @ [10] @ line\<rparr>"

function spec_assemble :: "jsstring list \<Rightarrow> WhatsAppMessage list" where
  "spec_assemble ls =
     (case dropWhile (\<lambda>l. \<not> isHeader l) ls of
        [] \<Rightarrow> []
      | h # rest \<Rightarrow>
          foldl append_line (newMessage h) (takeWhile (\<lambda>l. \<not> isHeader l) rest)
            # spec_assemble (dropWhile (\<lambda>l. \<not> isHeader l) rest))"
  by pat_completeness auto
termination
proof (relation "measure length")
  show "wf (measure length)" by simp
next
  fix ls :: "jsstring list" and h rest
  assume "dropWhile (\<lambda>l. \<not> isHeader l) ls = h # rest"
  then have "Suc (length rest) \<le> length ls"
    by (metis length_Cons length_dropWhile_le)
  moreover have "length (dropWhile (\<lambda>l. \<not> isHeader l) rest) \<le> length rest"
    by (rule length_dropWhile_le)
  ultimately show "(dropWhile (\<lambda>l. \<not> isHeader l) rest, ls) \<in> measure length" by simp
qed

declare spec_assemble.simps [simp del]

definition spec_lines :: "jsstring \<Rightarrow> jsstring list" where
  "spec_lines text = filter (\<lambda>l. l \<noteq> []) (map trim (split 10 text))"

text \<open>The groups that a pattern sets in every match.\<close>

fun sets_groups :: "re \<Rightarrow> nat set" where
  "sets_groups (Cls P) = {}"
| "sets_groups (Seq a b) = sets_groups a \<union> sets_groups b"
| "sets_groups (Rep lo hi g r) = {}"
| "sets_groups (Grp n r) = insert n (sets_groups r)"
| "sets_groups Bol = {}"
| "sets_groups Eol = {}"

section \<open>Timestamps (filter messages per day)\<close>

text \<open>
  A \<open>Date\<close> is its time value, in milliseconds, or \<open>None\<close> for an invalid date. The
  constructor with year, month index, day, hours, minutes and seconds reads them as
  local time and normalises overflowing components as ECMAScript does (\<open>MakeDay\<close>,
  \<open>MakeTime\<close>, \<open>MakeDate\<close>, \<open>TimeClip\<close>). The time values are kept on the local
  time scale: in a zone with a fixed offset from UTC, such as Peru's, that shifts every
  date by the same amount and changes no comparison. A component that is not a number
  (\<open>NaN\<close>, or \<open>undefined\<close> after arithmetic) is \<open>None\<close>.
\<close>

type_synonym date = "int option"

definition DayFromYear :: "int \<Rightarrow> int" where
  "DayFromYear y = 365 * (y - 1970) + (y - 1969) div 4 - (y - 1901) div 100 + (y - 1601) div 400"

definition InLeapYear :: "int \<Rightarrow> bool" where
  "InLeapYear y \<longleftrightarrow> y mod 4 = 0 \<and> (y mod 100 \<noteq> 0 \<or> y mod 400 = 0)"

definition daysBeforeMonth :: "int \<Rightarrow> nat \<Rightarrow> int" where
  "daysBeforeMonth y mn =
     [0, 31, 59, 90, 120, 151, 181, 212, 243, 273, 304, 334] ! mn
       + (if InLeapYear y \<and> 2 \<le> mn then 1 else 0)"

definition MakeDay :: "int \<Rightarrow> int \<Rightarrow> int \<Rightarrow> int" where
  "MakeDay year month dt =
     (let ym = year + month div 12; mn = nat (month mod 12)
      in DayFromYear ym + daysBeforeMonth ym mn + dt - 1)"

definition MakeTime :: "int \<Rightarrow> int \<Rightarrow> int \<Rightarrow> int \<Rightarrow> int" where
  "MakeTime hour minute sec ms = hour * 3600000 + minute * 60000 + sec * 1000 + ms"

definition MakeDate :: "int \<Rightarrow> int \<Rightarrow> int" where
  "MakeDate day time = day * 86400000 + time"

definition TimeClip :: "int \<Rightarrow> date" where
  "TimeClip t = (if 8640000000000000 < \<bar>t\<bar> then None else Some t)"

definition newDate :: "int option \<Rightarrow> int option \<Rightarrow> int option \<Rightarrow> int \<Rightarrow> int \<Rightarrow> int \<Rightarrow> date" where
  "newDate year month dt hours minutes seconds =
     (case (year, month, dt) of
        (Some y, Some m, Some d) \<Rightarrow>
          (let yr = (if 0 \<le> y \<and> y \<le> 99 then 1900 + y else y)
           in TimeClip (MakeDate (MakeDay yr m d) (MakeTime hours minutes seconds 0)))
      | _ \<Rightarrow> None)"

definition getHours :: "date \<Rightarrow> int option" where
  "getHours d = map_option (\<lambda>t. (t div 3600000) mod 24) d"

text \<open>
  Comparing two dates with \<open>>\<close> compares their time values; with an invalid date
  on either side the answer is false.
\<close>

definition date_gt :: "date \<Rightarrow> date \<Rightarrow> bool" where
  "date_gt a b = (case (a, b) of (Some x, Some y) \<Rightarrow> y < x | _ \<Rightarrow> False)"

text \<open>
  \<open>Number\<close> applied to a string, for the strings that reach it here: runs of decimal
  digits (their value), the empty string (0), anything else not a number. Signs,
  fractions, exponents and radix prefixes cannot occur in a capture of \<open>\d\<close>.
\<close>

definition digitsValue :: "jsstring \<Rightarrow> int" where
  "digitsValue ds = foldl (\<lambda>n c. 10 * n + (int c - 48)) 0 ds"

definition Number :: "jsstring \<Rightarrow> int option" where
  "Number s =
     (let t = trim s in
      if t = [] then Some 0
      else if list_all isDigit t then Some (digitsValue t)
      else None)"

text \<open>An array element by index (\<open>undefined\<close> past the end) and \<open>x || 0\<close>.\<close>

definition item :: "'a list \<Rightarrow> nat \<Rightarrow> 'a option" where
  "item xs n = (if n < length xs then Some (xs ! n) else None)"

definition orZero :: "int option option \<Rightarrow> int" where
  "orZero v = (case v of Some (Some n) \<Rightarrow> n | _ \<Rightarrow> 0)"

text \<open>
  The four shapes of \<open>parseTimestamp\<close>, in the order of the array; the first two carry
  the \<open>i\<close> flag.
\<close>

definition timePattern :: re where
  "timePattern = seqs [between 1 2 digit, chr 58, between 2 2 digit, chr 58, between 2 2 digit]"

definition meridiemLetter :: "jschar \<Rightarrow> bool" where
  "meridiemLetter c \<longleftrightarrow> canonicalize c = canonicalize 97 \<or> canonicalize c = canonicalize 112"

definition meridiemPattern :: re where
  "meridiemPattern = seqs [Cls meridiemLetter, optional (chr 46), many space, ichr 109, optional (chr 46)]"

definition formatFull :: re where
  "formatFull =
     seqs [Bol, Grp 1 datePattern, chr 44, many space, Grp 2 timePattern, many space,
           Grp 3 meridiemPattern, Eol]"

definition formatNoSeconds :: re where
  "formatNoSeconds =
     seqs [Bol, Grp 1 datePattern, chr 44, many space,
           Grp 2 (seqs [between 1 2 digit, chr 58, between 2 2 digit]), many space,
           Grp 3 meridiemPattern, Eol]"

definition formatNoMeridiem :: re where
  "formatNoMeridiem = seqs [Bol, Grp 1 datePattern, chr 44, many space, Grp 2 timePattern, Eol]"

definition formatDateOnly :: re where
  "formatDateOnly = seqs [Bol, Grp 1 datePattern, Eol]"

definition formats :: "re list" where
  "formats = [formatFull, formatNoSeconds, formatNoMeridiem, formatDateOnly]"

fun firstMatch :: "re list \<Rightarrow> jsstring \<Rightarrow> caps option" where
  "firstMatch [] s = None"
| "firstMatch (format # rest) s =
     (case match format s of Some m \<Rightarrow> Some m | None \<Rightarrow> firstMatch rest s)"

datatype diagnostic = UnrecognizedFormat jsstring | ParseError jsstring

definition cleanTimestamp :: "jsstring \<Rightarrow> jsstring" where
  "cleanTimestamp stamp = trim (replaceAll (chr 8206) [] stamp)"

definition adjustHours :: "jsstring option \<Rightarrow> int \<Rightarrow> int" where
  "adjustHours period hours =
     (case period of
        None \<Rightarrow> hours
      | Some p \<Rightarrow>
          if p = [] then hours
          else let isPM = 112 \<in> set (toLowerCase p); isAM = 97 \<in> set (toLowerCase p)
               in if isPM \<and> hours \<noteq> 12 then hours + 12
                  else if isAM \<and> hours = 12 then 0
                  else hours)"

text \<open>
  The body of the \<open>try\<close> block. \<open>now\<close> is the reading of the clock when the function
  is called, which \<open>new Date()\<close> returns. \<open>datePart.split\<close> on a first group that took
  no part in the match would raise a TypeError.
\<close>

definition parseTimestamp_try :: "int \<Rightarrow> jsstring \<Rightarrow> error + date \<times> diagnostic list" where
  "parseTimestamp_try now stamp =
     (case firstMatch formats (cleanTimestamp stamp) of
        Some m \<Rightarrow>
          (case capture m 1 of
             None \<Rightarrow> Inl TypeError
           | Some datePart \<Rightarrow>
               let parts = map Number (split 47 datePart);
                   day = Option.bind (item parts 0) id;
                   month = Option.bind (item parts 1) id;
                   year = Option.bind (item parts 2) id;
                   hms = (case capture m 2 of
                            None \<Rightarrow> (0, 0, 0)
                          | Some timePart \<Rightarrow>
                              if timePart = [] then (0, 0, 0)
                              else let timeComponents = map Number (split 58 timePart)
                                   in (adjustHours (capture m 3) (orZero (item timeComponents 0)),
                                       orZero (item timeComponents 1),
                                       orZero (item timeComponents 2)));
                   fullYear = map_option (\<lambda>y. if y < 100 then 2000 + y else y) year
               in Inr (newDate fullYear (map_option (\<lambda>m. m - 1) month) day
                         (fst hms) (fst (snd hms)) (snd (snd hms)), []))
      | None \<Rightarrow> Inr (Some now, [UnrecognizedFormat stamp]))"

definition parseTimestamp :: "int \<Rightarrow> jsstring \<Rightarrow> date \<times> diagnostic list" where
  "parseTimestamp now stamp =
     (case parseTimestamp_try now stamp of
        Inr r \<Rightarrow> r
      | Inl e \<Rightarrow> (Some now, [ParseError stamp]))"

definition extractDateFromTimestamp :: "jsstring \<Rightarrow> jsstring" where
  "extractDateFromTimestamp stamp =
     (case split 44 (cleanTimestamp stamp) of [] \<Rightarrow> stamp | datePart # _ \<Rightarrow> trim datePart)"

section \<open>Events, day filter and duplicates (filter messages per day)\<close>

text \<open>
  The event record. Its field \<open>sender\<close> is \<open>eventSender\<close> here, the name \<open>sender\<close>
  being the message's.
\<close>

record FilteredEvent =
  eventName :: jsstring
  eventDate :: jsstring
  dayOfWeek :: jsstring
  time :: jsstring
  location :: jsstring
  players :: "jsstring list"
  totalPlayers :: nat
  messageTimestamp :: jsstring
  eventSender :: jsstring
  originalMessage :: WhatsAppMessage

definition allowedDays :: "jsstring list" where
  "allowedDays =
     [js ''viernes'', js ''vienes'',
      js ''mi'' @ 233 # js ''rcoles'', js ''miercoles'',
      js ''miercoles'', js ''mi'' @ 233 # js ''rcoles'']"

text \<open>
  The table \<open>dayMappings\<close> is an object literal read by key. Its own keys are modelled;
  the two lower-case names an object inherits (\<open>constructor\<close>, \<open>__proto__\<close>) are not,
  and \<open>parseEventFromMessage\<close> never asks for them, since it normalises only a day
  that \<open>isAllowedDay\<close> has admitted.
\<close>

definition dayMappings :: "(jsstring \<times> jsstring) list" where
  "dayMappings =
     [(js ''vienes'', js ''viernes''),
      (js ''viernes'', js ''viernes''),
      (js ''miercoles'', js ''mi'' @ 233 # js ''rcoles''),
      (js ''mi'' @ 233 # js ''rcoles'', js ''mi'' @ 233 # js ''rcoles'')]"

definition normalizeDayName :: "jsstring \<Rightarrow> jsstring" where
  "normalizeDayName day =
     (let normalized = trim (toLowerCase day)
      in case map_of dayMappings normalized of
           Some canonical \<Rightarrow> (if canonical = [] then normalized else canonical)
         | None \<Rightarrow> normalized)"

definition isAllowedDay :: "jsstring \<Rightarrow> bool" where
  "isAllowedDay day =
     (let normalized = trim (toLowerCase day)
      in list_ex (\<lambda>allowedDay. toLowerCase allowedDay = normalized) allowedDays)"

text \<open>\<open>String.prototype.startsWith\<close> and \<open>includes\<close> (here \<open>includes_str\<close>).\<close>

fun startsWith :: "jsstring \<Rightarrow> jsstring \<Rightarrow> bool" where
  "startsWith s [] = True"
| "startsWith [] (p # ps) = False"
| "startsWith (x # xs) (p # ps) = (x = p \<and> startsWith xs ps)"

fun includes_str :: "jsstring \<Rightarrow> jsstring \<Rightarrow> bool" where
  "includes_str [] p = (p = [])"
| "includes_str (x # xs) p = (startsWith (x # xs) p \<or> includes_str xs p)"

text \<open>The patterns of \<open>parseEventFromMessage\<close>.\<close>

definition diaLabel :: re where
  "diaLabel = seqs [ichr 100, ichr 237, ichr 97, chr 58]"

definition horaLabel :: re where
  "horaLabel = seqs [ichr 104, ichr 111, ichr 114, ichr 97, chr 58]"

definition lugarLabel :: re where
  "lugarLabel = seqs [ichr 108, ichr 117, ichr 103, ichr 97, ichr 114, chr 58]"

definition numberedLine :: re where
  "numberedLine = seqs [Bol, many1 digit, chr 46, many space]"

definition playerLine :: re where
  "playerLine = seqs [Bol, many1 digit, chr 46, many space, optional (chr 45), many space, Grp 1 (many1 dot)]"

definition editedMark :: re where
  "editedMark = seqs [chr 8206, chr 60, many1 (Cls (\<lambda>c. c \<noteq> 62)), chr 62]"

record EventFields =
  f_eventName :: jsstring
  f_dayOfWeek :: jsstring
  f_time :: jsstring
  f_location :: jsstring
  f_players :: "jsstring list"

text \<open>
  One turn of the loop over the lines of the message: the local variables before and
  after. \<open>playerMatch[1].trim()\<close> on a group that took no part in the match would raise
  a TypeError.
\<close>

definition event_step :: "EventFields \<Rightarrow> jsstring \<Rightarrow> error + EventFields" where
  "event_step f line =
     (let trimmedLine = trim line in
      if trimmedLine = [] then Inr f
      else if includes_str (toLowerCase trimmedLine) (js ''pichanga'') \<or>
              includes_str (toLowerCase trimmedLine) (js ''ipi'')
           then Inr (f\<lparr>f_eventName := trimmedLine\<rparr>)
      else if startsWith (toLowerCase trimmedLine) (js ''d'' @ 237 # js ''a:'')
           then Inr (f\<lparr>f_dayOfWeek := trim (replaceFirst diaLabel [] trimmedLine)\<rparr>)
      else if startsWith (toLowerCase trimmedLine) (js ''hora:'')
           then Inr (f\<lparr>f_time := trim (replaceFirst horaLabel [] trimmedLine)\<rparr>)
      else if startsWith (toLowerCase trimmedLine) (js ''lugar:'')
           then Inr (f\<lparr>f_location := trim (replaceFirst lugarLabel [] trimmedLine)\<rparr>)
      else if test numberedLine trimmedLine
           then (case match playerLine trimmedLine of
                   None \<Rightarrow> Inr f
                 | Some playerMatch \<Rightarrow>
                     (case capture playerMatch 1 of
                        None \<Rightarrow> Inl TypeError
                      | Some g \<Rightarrow>
                          let playerName = trim (replaceFirst editedMark [] (trim g))
                          in if playerName \<noteq> [] \<and> playerName \<noteq> js ''-''
                             then Inr (f\<lparr>f_players := f_players f @ [playerName]\<rparr>)
                             else Inr f))
      else Inr f)"

fun event_loop :: "jsstring list \<Rightarrow> EventFields \<Rightarrow> error + EventFields" where
  "event_loop [] f = Inr f"
| "event_loop (l # ls) f = (case event_step f l of Inl e \<Rightarrow> Inl e | Inr f' \<Rightarrow> event_loop ls f')"

text \<open>
  \<open>parseEventFromMessage\<close>: \<open>None\<close> is \<open>null\<close>, returned for a day that is not
  allowed and, after logging, for any error caught.
\<close>

definition parseEventFromMessage :: "WhatsAppMessage \<Rightarrow> FilteredEvent option" where
  "parseEventFromMessage message =
     (case event_loop (split 10 (content message))
             \<lparr>f_eventName = [], f_dayOfWeek = [], f_time = [], f_location = [], f_players = []\<rparr> of
        Inl e \<Rightarrow> None
      | Inr f \<Rightarrow>
          if \<not> isAllowedDay (f_dayOfWeek f) then None
          else Some \<lparr>eventName = f_eventName f,
                     eventDate = extractDateFromTimestamp (timestamp message),
                     dayOfWeek = normalizeDayName (f_dayOfWeek f),
                     time = f_time f,
                     location = f_location f,
                     players = f_players f,
                     totalPlayers = length (f_players f),
                     messageTimestamp = timestamp message,
                     eventSender = sender message,
                     originalMessage = message\<rparr>)"

text \<open>
  \<open>removeDuplicates\<close>. A JavaScript \<open>Map\<close> keeps its entries in insertion order, and
  setting a key it has keeps the entry's place. Every call of \<open>parseTimestamp\<close> happens
  at its own moment: \<open>clock t\<close> is the reading of the clock at the call number \<open>t\<close>.
  Nothing in the \<open>try\<close> block of the loop can raise (\<open>parseTimestamp\<close> catches its own
  errors), so its \<open>catch\<close> branch is not part of the model; nor are the lines it logs.
\<close>

fun map_set :: "('k \<times> 'v) list \<Rightarrow> 'k \<Rightarrow> 'v \<Rightarrow> ('k \<times> 'v) list" where
  "map_set [] k v = [(k, v)]"
| "map_set ((k', v') # m) k v = (if k' = k then (k, v) # m else (k', v') # map_set m k v)"

definition eventKey :: "FilteredEvent \<Rightarrow> jsstring" where
  "eventKey event = dayOfWeek event @ js ''_'' @ eventDate event"

definition dedup_step ::
  "(nat \<Rightarrow> int) \<Rightarrow> (jsstring \<times> FilteredEvent) list \<times> nat \<Rightarrow> FilteredEvent \<Rightarrow>
   (jsstring \<times> FilteredEvent) list \<times> nat" where
  "dedup_step clock st event =
     (case st of (eventMap, t) \<Rightarrow>
      let key = eventKey event in
      case map_of eventMap key of
        None \<Rightarrow> (map_set eventMap key event, t)
      | Some existingEvent \<Rightarrow>
          let currentTime = fst (parseTimestamp (clock t) (messageTimestamp event));
              existingTime = fst (parseTimestamp (clock (Suc t)) (messageTimestamp existingEvent))
          in (if date_gt currentTime existingTime then map_set eventMap key event else eventMap,
              Suc (Suc t)))"

definition removeDuplicates :: "(nat \<Rightarrow> int) \<Rightarrow> FilteredEvent list \<Rightarrow> FilteredEvent list" where
  "removeDuplicates clock events' = map snd (fst (foldl (dedup_step clock) ([], 0) events'))"



section \<open>Consolidating a group of similar players (final grouping)\<close>

text \<open>
  The players read from the ranking file. The field \<open>variations\<close> is read with a
  fallback (\<open>player.variations || [player.name]\<close>), so a missing field is a value of
  the model: \<open>None\<close>. An empty array is truthy and stays empty. The field
  \<open>cleanName\<close> of the file is \<open>cleanNameField\<close> here, the name \<open>cleanName\<close> being
  the function's.
\<close>

record Player =
  name :: jsstring
  cleanNameField :: jsstring
  attendance :: int
  events :: "jsstring list option"
  variations :: "jsstring list option"















section \<open>Player names and attendance (create stats)\<close>

text \<open>
  The alias table, in the order of its entries (\<open>Object.entries\<close> keeps it: no key is
  an array index).
\<close>

definition playerAliases :: "(jsstring \<times> jsstring) list" where
  "playerAliases =
     [(js ''conde'', js ''Spectre''),
      (js ''Spectre'', js ''Spectre''),
      (js ''Dayler'', js ''Dayler''),
      (js ''Deyler'', js ''Dayler''),
      (js ''Kenyi'', js ''Sebas''),
      (js ''Sebas'', js ''Sebas''),
      (js ''Sebastian'', js ''Sebas'')]"

text \<open>
  The patterns of \<open>cleanPlayerName\<close>. The class of decorative glyphs is written in the
  source with seven emoji; without the \<open>u\<close> flag its members are their code units,
  the two halves of a surrogate pair each on its own.
\<close>

definition parenthesised :: re where
  "parenthesised = seqs [chr 40, many (Cls (\<lambda>c. c \<noteq> 41)), chr 41]"

definition bracketed :: re where
  "bracketed = seqs [chr 91, many (Cls (\<lambda>c. c \<noteq> 93)), chr 93]"

definition braced :: re where
  "braced = seqs [chr 123, many (Cls (\<lambda>c. c \<noteq> 125)), chr 125]"

definition invisibles :: re where
  "invisibles = Cls (\<lambda>c. c = 8206 \<or> c = 60 \<or> c = 62)"

definition trailingGo :: re where
  "trailingGo = seqs [many space, ichr 103, ichr 111, many space, Eol]"

definition trailingHyphen :: re where
  "trailingHyphen = seqs [many space, chr 45, many space, Eol]"

definition glyphs :: re where
  "glyphs = Cls (\<lambda>c. c \<in> {55357, 56613, 11088, 10024, 56490, 56401, 55356, 57286, 9917})"

definition spaces :: re where
  "spaces = many1 space"

text \<open>\<open>word.charAt(0).toUpperCase() + word.slice(1)\<close>, with the rest as it is or lower-cased.\<close>

definition capitalize :: "jsstring \<Rightarrow> jsstring" where
  "capitalize word = (case word of [] \<Rightarrow> [] | c # cs \<Rightarrow> upperChar c @ cs)"

definition capitalizeLower :: "jsstring \<Rightarrow> jsstring" where
  "capitalizeLower word = (case word of [] \<Rightarrow> [] | c # cs \<Rightarrow> upperChar c @ toLowerCase cs)"

definition strip :: "jsstring \<Rightarrow> jsstring" where
  "strip playerName =
     trim (replaceAll spaces (js '' '')
       (replaceAll glyphs []
         (replaceFirst trailingHyphen []
           (replaceFirst trailingGo []
             (replaceAll invisibles []
               (replaceAll braced []
                 (replaceAll bracketed []
                   (replaceAll parenthesised [] playerName))))))))"

definition cleanPlayerName :: "jsstring \<Rightarrow> jsstring" where
  "cleanPlayerName playerName =
     (let cleaned = strip playerName in
      if cleaned = [] then []
      else join (js '' '') (map capitalize (split 32 (toLowerCase cleaned))))"

fun findAlias :: "(jsstring \<times> jsstring) list \<Rightarrow> jsstring \<Rightarrow> jsstring option" where
  "findAlias [] normalized = None"
| "findAlias ((alias, mainName) # rest) normalized =
     (if toLowerCase alias = normalized then Some mainName else findAlias rest normalized)"

definition normalizePlayerName :: "jsstring \<Rightarrow> jsstring" where
  "normalizePlayerName cleaned =
     (let normalized = toLowerCase (trim (replaceAll spaces (js '' '') cleaned)) in
      case findAlias playerAliases normalized of
        Some mainName \<Rightarrow> mainName
      | None \<Rightarrow> join (js '' '') (map capitalizeLower (split 32 cleaned)))"

text \<open>
  \<open>processPlayers\<close>. The statistics of a player are a \<open>Player\<close> record, the one the
  ranking file is later read into, with both arrays present. The \<open>Map\<close> is a list of
  entries in insertion order; a record changed in place keeps its entry's place.
\<close>

definition includes_item :: "'a list \<Rightarrow> 'a \<Rightarrow> bool" where
  "includes_item xs x \<longleftrightarrow> x \<in> set xs"

definition arrayOf :: "jsstring list option \<Rightarrow> jsstring list" where
  "arrayOf v = (case v of None \<Rightarrow> [] | Some xs \<Rightarrow> xs)"

definition count_player :: "jsstring \<Rightarrow> (jsstring \<times> Player) list \<Rightarrow> jsstring \<Rightarrow> (jsstring \<times> Player) list" where
  "count_player eventKey' playerMap playerName =
     (if playerName = [] \<or> trim playerName = [] \<or> playerName = js ''-'' then playerMap
      else let cleaned = cleanPlayerName playerName;
               normalizedName = normalizePlayerName cleaned
           in if normalizedName = [] then playerMap
              else let playerStats =
                         (case map_of playerMap normalizedName of
                            Some st \<Rightarrow> st
                          | None \<Rightarrow> \<lparr>name = normalizedName, cleanNameField = normalizedName,
                                      attendance = 0, events = Some [], variations = Some []\<rparr>);
                       counted = playerStats\<lparr>attendance := attendance playerStats + 1\<rparr>;
                       dated = (if includes_item (arrayOf (events counted)) eventKey' then counted
                                else counted\<lparr>events := Some (arrayOf (events counted) @ [eventKey'])\<rparr>);
                       spelled = (if includes_item (arrayOf (variations dated)) (trim playerName) then dated
                                  else dated\<lparr>variations := Some (arrayOf (variations dated) @ [trim playerName])\<rparr>)
                   in map_set playerMap normalizedName spelled)"

definition statsKey :: "FilteredEvent \<Rightarrow> jsstring" where
  "statsKey event = eventDate event @ js '' ('' @ dayOfWeek event @ js '')''"

definition count_event :: "(jsstring \<times> Player) list \<Rightarrow> FilteredEvent \<Rightarrow> (jsstring \<times> Player) list" where
  "count_event playerMap event = foldl (count_player (statsKey event)) playerMap (players event)"

definition processPlayers :: "FilteredEvent list \<Rightarrow> (jsstring \<times> Player) list" where
  "processPlayers events' = foldl count_event [] events'"

section \<open>Grouping similar players (final grouping)\<close>
















text \<open>A small export: a stray line, a two-line announcement with a blank line inside, a reply.\<close>

definition chat :: jsstring where
  "chat = js ''hola'' @ [10] @ js ''[25/07/25, 12:13:12 p. m.] Ana: Pichanga'' @ [10] @
          js ''D'' @ 237 # js ''a: viernes'' @ [10] @ js ''  '' @ [10] @ js ''1. Luis '' @ [10] @
          js ''[26/07/25, 1:05:00 a. m.] Luis: ok''"

definition msg1 :: WhatsAppMessage where
  "msg1 = \<lparr>timestamp = js ''25/07/25, 12:13:12 p. m.'', sender = js ''Ana'',
     content = js ''Pichanga'' @ 10 # js ''D'' @ 237 # js ''a: viernes'' @ 10 # js ''1. Luis'',
     rawMessage = js ''[25/07/25, 12:13:12 p. m.] Ana: Pichanga'' @ 10 # js ''D'' @ 237 # js ''a: viernes'' @ 10 # js ''1. Luis''\<rparr>"

definition msg2 :: WhatsAppMessage where
  "msg2 = \<lparr>timestamp = js ''26/07/25, 1:05:00 a. m.'', sender = js ''Luis'',
     content = js ''ok'', rawMessage = js ''[26/07/25, 1:05:00 a. m.] Luis: ok''\<rparr>"

text \<open>
  The texts of the full shape \<open>d/m/yy, H:MM:SS meridiem\<close>, by their parts: the digits
  of day, month, year, hour, minute and second, the white space after the comma,
  before the meridiem and inside it, the letter of the meridiem (a or p, either case),
  its letter m (either case), and the two optional dots.
\<close>

definition shapeText ::
  "jsstring \<Rightarrow> jsstring \<Rightarrow> jsstring \<Rightarrow> jsstring \<Rightarrow> jsstring \<Rightarrow> jsstring \<Rightarrow> jsstring \<Rightarrow> jsstring \<Rightarrow>
   jschar \<Rightarrow> jsstring \<Rightarrow> jsstring \<Rightarrow> jschar \<Rightarrow> jsstring \<Rightarrow> jsstring" where
  "shapeText D M Y ws1 H MI S ws2 p dot1 ws3 m dot2 =
     D @ 47 # M @ 47 # Y @ 44 # ws1 @ H @ 58 # MI @ 58 # S @ ws2 @ p # dot1 @ ws3 @ m # dot2"

definition fullShape ::
  "jsstring \<Rightarrow> jsstring \<Rightarrow> jsstring \<Rightarrow> jsstring \<Rightarrow> jsstring \<Rightarrow> jsstring \<Rightarrow> jsstring \<Rightarrow> jsstring \<Rightarrow>
   jschar \<Rightarrow> jsstring \<Rightarrow> jsstring \<Rightarrow> jschar \<Rightarrow> jsstring \<Rightarrow> bool" where
  "fullShape D M Y ws1 H MI S ws2 p dot1 ws3 m dot2 \<longleftrightarrow>
     list_all isDigit D \<and> 1 \<le> length D \<and> length D \<le> 2 \<and>
     list_all isDigit M \<and> 1 \<le> length M \<and> length M \<le> 2 \<and>
     list_all isDigit Y \<and> length Y = 2 \<and>
     list_all isWhiteSpace ws1 \<and>
     list_all isDigit H \<and> 1 \<le> length H \<and> length H \<le> 2 \<and>
     list_all isDigit MI \<and> length MI = 2 \<and>
     list_all isDigit S \<and> length S = 2 \<and>
     list_all isWhiteSpace ws2 \<and>
     (p = 97 \<or> p = 65 \<or> p = 112 \<or> p = 80) \<and>
     (dot1 = [] \<or> dot1 = [46]) \<and>
     list_all isWhiteSpace ws3 \<and>
     (m = 109 \<or> m = 77) \<and>
     (dot2 = [] \<or> dot2 = [46])"

definition keyed :: "FilteredEvent list \<Rightarrow> (jsstring \<times> FilteredEvent) list \<Rightarrow> bool" where
  "keyed pre em \<longleftrightarrow>
     distinct (map fst em) \<and> (\<forall>(k, s) \<in> set em. eventKey s = k \<and> s \<in> set pre) \<and>
     fst ` set em = eventKey ` set pre"


text \<open>Two announcements of one Friday game, the second sent later, and one of another day.\<close>

definition announcement :: WhatsAppMessage where
  "announcement = \<lparr>timestamp = js ''25/07/25, 12:13:12 p. m.'', sender = js ''Ana'',
     content = js ''Pichanga'', rawMessage = js ''[25/07/25, 12:13:12 p. m.] Ana: Pichanga''\<rparr>"

definition earlier :: FilteredEvent where
  "earlier = \<lparr>eventName = js ''Pichanga'', eventDate = js ''25/07/25'', dayOfWeek = js ''viernes'',
     time = js ''9:00'', location = js ''Potokar'', players = [js ''A'', js ''B''], totalPlayers = 2,
     messageTimestamp = js ''25/07/25, 12:13:12 p. m.'', eventSender = js ''Ana'',
     originalMessage = announcement\<rparr>"




text \<open>The loop of \<open>processMessages\<close> that keeps the events parsed from the messages.\<close>

definition collectEvents :: "WhatsAppMessage list \<Rightarrow> FilteredEvent list" where
  "collectEvents messages = List.map_filter parseEventFromMessage messages"

text \<open>The accented day name, and a message announcing a game on a given day.\<close>

definition miercoles :: jsstring where
  "miercoles = js ''mi'' @ 233 # js ''rcoles''"

definition game :: "jsstring \<Rightarrow> WhatsAppMessage" where
  "game day = \<lparr>timestamp = js ''25/07/25, 12:13:12 p. m.'', sender = js ''Ana'',
     content = js ''Pichanga'' @ 10 # js ''D'' @ 237 # js ''a: '' @ day @ 10 # js ''Hora: 9:00'' @ 10 #
               js ''1. - Alex'' @ 10 # js ''2. Moises(4)'' @ 10 # js ''3. -'',
     rawMessage = []\<rparr>"

text \<open>An event whose timestamp matches no shape.\<close>

definition undated :: FilteredEvent where
  "undated = earlier\<lparr>messageTimestamp := js ''ayer, 12:13''\<rparr>"

text \<open>
  Three Friday games with the rosters A and B, A (written with a space after it) and C,
  and B.
\<close>

definition fridays :: "FilteredEvent list" where
  "fridays =
     [earlier\<lparr>players := [js ''A'', js ''B'']\<rparr>,
      earlier\<lparr>eventDate := js ''01/08/25'', players := [js ''A '', js ''C'']\<rparr>,
      earlier\<lparr>eventDate := js ''08/08/25'', players := [js ''B'']\<rparr>]"

text \<open>Every spelling recorded for every player is trimmed.\<close>

definition trimmed_variations :: "(jsstring \<times> Player) list \<Rightarrow> bool" where
  "trimmed_variations playerMap \<longleftrightarrow>
     (\<forall>(n, st) \<in> set playerMap. \<forall>v \<in> set (arrayOf (variations st)). trim v = v)"

text \<open>
  The texts a pattern can match, whatever the order in which the matcher tries them, and
  the groups of a pattern with their bodies. The lower bound of a quantifier is left out:
  only the upper bound is used.
\<close>

fun lang :: "re \<Rightarrow> jsstring set" where
  "lang (Cls P) = {[x] | x. P x}"
| "lang (Seq a b) = {u @ v | u v. u \<in> lang a \<and> v \<in> lang b}"
| "lang (Rep lo hi g r) = {concat ws | ws. set ws \<subseteq> lang r \<and> (\<forall>h. hi = Some h \<longrightarrow> length ws \<le> h)}"
| "lang (Grp n r) = lang r"
| "lang Bol = {[]}"
| "lang Eol = {[]}"

fun groups :: "re \<Rightarrow> (nat \<times> re) list" where
  "groups (Cls P) = []"
| "groups (Seq a b) = groups a @ groups b"
| "groups (Rep lo hi g r) = groups r"
| "groups (Grp n r) = (n, r) # groups r"
| "groups Bol = []"
| "groups Eol = []"

definition sound_caps :: "re \<Rightarrow> caps \<Rightarrow> bool" where
  "sound_caps r d \<longleftrightarrow> (\<forall>(n, v) \<in> set d. \<exists>b. (n, b) \<in> set (groups r) \<and> v \<in> lang b)"

chapter \<open>Properties\<close>

section \<open>Consolidation of a group\<close>


lemma foldl_set_add_distinct_set:
  "distinct acc \<Longrightarrow> distinct (foldl set_add acc xs) \<and> set (foldl set_add acc xs) = set acc \<union> set xs"
  by (induction xs arbitrary: acc) (auto simp: set_add_def)










section \<open>Grouping similar players\<close>













section \<open>Assembling messages\<close>

lemma matches_caps:
  "m' \<in> set (matches r m) \<Longrightarrow> fst ` set (snd (snd m)) \<union> sets_groups r \<subseteq> fst ` set (snd (snd m'))"
proof (induction r m arbitrary: m' rule: matches.induct)
  case (1 P i c)
  then show ?case by simp
next
  case (2 P i x xs c)
  then show ?case by (auto split: if_splits)
next
  case (3 a b st)
  from "3.prems" obtain x where x: "x \<in> set (matches a st)" "m' \<in> set (matches b x)" by auto
  have a: "fst ` set (snd (snd st)) \<union> sets_groups a \<subseteq> fst ` set (snd (snd x))"
    by (rule "3.IH"(1) [OF x(1)])
  have b: "fst ` set (snd (snd x)) \<union> sets_groups b \<subseteq> fst ` set (snd (snd m'))"
    by (rule "3.IH"(2) [OF x(1) x(2)])
  have "fst ` set (snd (snd st)) \<subseteq> fst ` set (snd (snd m'))"
    using a b by (meson le_sup_iff order_trans)
  moreover have "sets_groups a \<subseteq> fst ` set (snd (snd m'))"
    using a b by (meson le_sup_iff order_trans)
  moreover have "sets_groups b \<subseteq> fst ` set (snd (snd m'))"
    using b by (meson le_sup_iff)
  ultimately show ?case by (simp only: sets_groups.simps le_sup_iff simp_thms)
next
  case (4 n r i s c)
  from "4.prems" obtain i' s' c' where x: "(i', s', c') \<in> set (matches r (i, s, c))" "m' = (i', s', (n, take (i' - i) s) # c')"
    by auto
  from "4.IH" [OF x(1)] x(2) show ?case by auto
next
  case (5 i s c)
  then show ?case by (auto split: if_splits)
next
  case (6 i s c)
  then show ?case by (auto split: if_splits)
next
  case (7 lo hi g r i s c)
  show ?case
  proof (cases "hi = Some 0")
    case True
    with "7.prems" show ?thesis by simp
  next
    case False
    have "m' = (i, s, c) \<or> (\<exists>i' s' c'. (i', s', c') \<in> set (matches r (i, s, c)) \<and> length s' < length s \<and>
            m' \<in> set (matches (Rep (lo - 1) (map_option (\<lambda>h. h - 1) hi) g r) (i', s', c')))"
    proof -
      have eq: "matches (Rep lo hi g r) (i, s, c) =
        (let more = concat (map (\<lambda>(i', s', c').
                         if length s' < length s
                         then matches (Rep (lo - 1) (map_option (\<lambda>h. h - 1) hi) g r) (i', s', c')
                         else [])
                       (matches r (i, s, c)));
               stop = (if lo = 0 then [(i, s, c)] else [])
           in if g then more @ stop else stop @ more)"
        using False by (simp only: matches.simps(7) [of lo hi g r i s c] if_False)
      show ?thesis
        using "7.prems" unfolding eq
        by (auto simp del: matches.simps simp: Let_def split: if_splits)
    qed
    then show ?thesis
    proof
      assume "m' = (i, s, c)"
      then show ?thesis by simp
    next
      assume "\<exists>i' s' c'. (i', s', c') \<in> set (matches r (i, s, c)) \<and> length s' < length s \<and>
            m' \<in> set (matches (Rep (lo - 1) (map_option (\<lambda>h. h - 1) hi) g r) (i', s', c'))"
      then obtain i' s' c' where x: "(i', s', c') \<in> set (matches r (i, s, c))" "length s' < length s"
        "m' \<in> set (matches (Rep (lo - 1) (map_option (\<lambda>h. h - 1) hi) g r) (i', s', c'))" by blast
      have a: "fst ` set (snd (snd (i, s, c))) \<union> sets_groups r \<subseteq> fst ` set (snd (snd (i', s', c')))"
        by (rule "7.IH"(1) [OF False x(1)])
      have b: "fst ` set (snd (snd (i', s', c'))) \<union> sets_groups (Rep (lo - 1) (map_option (\<lambda>h. h - 1) hi) g r)
                 \<subseteq> fst ` set (snd (snd m'))"
        by (rule "7.IH"(2) [OF False x(1) refl refl x(2) x(3)])
      have "fst ` set (snd (snd (i, s, c))) \<subseteq> fst ` set (snd (snd m'))"
        using a b by (meson le_sup_iff order_trans)
      then show ?thesis by (simp only: sets_groups.simps Un_empty_right)
    qed
  qed
qed

lemma search_from_caps:
  "search_from r i s = Some (j, e, rest, c) \<Longrightarrow> sets_groups r \<subseteq> fst ` set c"
proof (induction s arbitrary: i)
  case Nil
  then have "(e, rest, c) \<in> set (matches r (i, [], []))"
    by (auto simp: attempt_def first_way_def split: list.splits)
  from matches_caps [OF this] show ?case by simp
next
  case (Cons x xs)
  show ?case
  proof (cases "attempt r i (x # xs)")
    case None
    with Cons show ?thesis by simp
  next
    case (Some m)
    with Cons.prems have "(e, rest, c) \<in> set (matches r (i, x # xs, []))"
      by (auto simp: attempt_def first_way_def split: list.splits)
    from matches_caps [OF this] show ?thesis by simp
  qed
qed

lemma match_caps: "match r s = Some m \<Longrightarrow> n \<in> sets_groups r \<Longrightarrow> capture m n \<noteq> None"
proof -
  assume a: "match r s = Some m" "n \<in> sets_groups r"
  then obtain j e rest c where s: "search_from r 0 s = Some (j, e, rest, c)" "m = (0, take (e - j) (drop j s)) # c"
    by (auto simp: match_def)
  from search_from_caps [OF s(1)] a(2) have "n \<in> fst ` set c" by blast
  then have "map_of c n \<noteq> None" by (simp add: map_of_eq_None_iff)
  then show ?thesis using s(2) by (simp add: capture_def)
qed

lemma headerMatch_sender: "headerMatch line = Some m \<Longrightarrow> \<exists>s. capture m 3 = Some s"
proof -
  assume "headerMatch line = Some m"
  then have "match messagePattern line = Some m \<or> match systemPattern line = Some m"
    by (auto simp: headerMatch_def split: option.splits)
  moreover have "3 \<in> sets_groups messagePattern" "3 \<in> sets_groups systemPattern"
    by (simp_all add: messagePattern_def systemPattern_def headerStamp_def)
  ultimately have "capture m 3 \<noteq> None" using match_caps by blast
  then show ?thesis by auto
qed

lemma spec_assemble_skip: "\<not> isHeader l \<Longrightarrow> spec_assemble (l # ls) = spec_assemble ls"
  by (subst spec_assemble.simps, subst (2) spec_assemble.simps) simp

lemma spec_assemble_header:
  "isHeader l \<Longrightarrow> spec_assemble (l # ls) =
     foldl append_line (newMessage l) (takeWhile (\<lambda>l. \<not> isHeader l) ls)
       # spec_assemble (dropWhile (\<lambda>l. \<not> isHeader l) ls)"
  by (subst spec_assemble.simps) simp

lemma spec_assemble_Nil: "spec_assemble [] = []"
  by (subst spec_assemble.simps) simp

lemma parse_step_blank: "trim l = [] \<Longrightarrow> parse_step st l = Inr st"
  by (cases st) (simp add: parse_step_def Let_def)

lemma parse_step_header:
  assumes "trim l \<noteq> []" "isHeader (trim l)"
  shows "parse_step (ms, cur) l =
     Inr ((case cur of None \<Rightarrow> ms | Some cm \<Rightarrow> ms @ [cm]), Some (newMessage (trim l)))"
proof -
  from assms(2) obtain m where m: "headerMatch (trim l) = Some m" by (auto simp: isHeader_def)
  from headerMatch_sender [OF m] obtain s where s: "capture m 3 = Some s" by blast
  show ?thesis using assms(1) m s by (simp add: parse_step_def newMessage_def str_def Let_def)
qed

lemma parse_step_continue:
  assumes "trim l \<noteq> []" "\<not> isHeader (trim l)"
  shows "parse_step (ms, cur) l = Inr (ms, map_option (\<lambda>cm. append_line cm (trim l)) cur)"
  using assms by (cases cur) (simp_all add: parse_step_def isHeader_def append_line_def Let_def)

lemma parse_loop_assemble:
  "parse_loop ls (ms, cur) =
     Inr (case cur of
            None \<Rightarrow> ms @ spec_assemble (filter (\<lambda>l. l \<noteq> []) (map trim ls))
          | Some cm \<Rightarrow>
              ms @ foldl append_line cm (takeWhile (\<lambda>l. \<not> isHeader l) (filter (\<lambda>l. l \<noteq> []) (map trim ls)))
                 # spec_assemble (dropWhile (\<lambda>l. \<not> isHeader l) (filter (\<lambda>l. l \<noteq> []) (map trim ls))))"
proof (induction ls arbitrary: ms cur)
  case Nil
  then show ?case by (cases cur) (simp_all add: spec_assemble_Nil)
next
  case (Cons l ls)
  show ?case
  proof (cases "trim l = []")
    case True
    then show ?thesis using Cons.IH [of ms cur] by (cases cur) (simp_all add: parse_step_blank)
  next
    case False
    show ?thesis
    proof (cases "isHeader (trim l)")
      case True
      show ?thesis
        using False True Cons.IH [of "case cur of None \<Rightarrow> ms | Some cm \<Rightarrow> ms @ [cm]" "Some (newMessage (trim l))"]
        by (cases cur) (simp_all add: parse_step_header spec_assemble_header)
    next
      case h: False
      show ?thesis
        using False h Cons.IH [of ms "map_option (\<lambda>cm. append_line cm (trim l)) cur"]
        by (cases cur) (simp_all add: parse_step_continue spec_assemble_skip)
    qed
  qed
qed

lemma filter_dropWhile_not: "filter P (dropWhile (\<lambda>x. \<not> P x) xs) = filter P xs"
  by (induction xs) auto

lemma spec_assemble_length: "length (spec_assemble ls) = length (filter isHeader ls)"
proof (induction ls rule: spec_assemble.induct)
  case (1 ls)
  show ?case
  proof (cases "dropWhile (\<lambda>l. \<not> isHeader l) ls")
    case Nil
    then have "filter isHeader ls = []"
      using filter_dropWhile_not [of isHeader ls] by simp
    moreover have "spec_assemble ls = []"
      by (subst spec_assemble.simps) (simp only: Nil list.case)
    ultimately show ?thesis by simp
  next
    case (Cons h rest)
    then have h: "isHeader h" using hd_dropWhile [of "\<lambda>l. \<not> isHeader l" ls] by auto
    have "length (filter isHeader ls) = length (filter isHeader (h # rest))"
      using filter_dropWhile_not [of isHeader ls] Cons by simp
    also have "\<dots> = Suc (length (filter isHeader (dropWhile (\<lambda>l. \<not> isHeader l) rest)))"
      using h by (simp add: filter_dropWhile_not)
    also have "\<dots> = Suc (length (spec_assemble (dropWhile (\<lambda>l. \<not> isHeader l) rest)))"
      using "1.IH" [OF Cons] by simp
    finally have "length (filter isHeader ls) =
        Suc (length (spec_assemble (dropWhile (\<lambda>l. \<not> isHeader l) rest)))" .
    moreover have "spec_assemble ls =
        foldl append_line (newMessage h) (takeWhile (\<lambda>l. \<not> isHeader l) rest)
          # spec_assemble (dropWhile (\<lambda>l. \<not> isHeader l) rest)"
      by (subst spec_assemble.simps) (simp only: Cons list.case)
    ultimately show ?thesis by simp
  qed
qed

text \<open>
  C7. The assembler turns the lines of the file into exactly one message per line that
  matches a header (after trimming), appended to the messages the parser already
  holds, none for a new parser. Every other non-blank line is appended, after a
  newline, to the content and raw text of the message of the header before it, in
  input order; such lines before the first header are dropped; blank lines are skipped
  and end nothing; the last buffered message is flushed at the end of the input. A
  file that cannot be read gives no message.
\<close>

theorem parseFile_assembles:
  "parseFile messages (Some text) = messages @ spec_assemble (spec_lines text) \<and>
   length (spec_assemble (spec_lines text)) = length (filter isHeader (spec_lines text)) \<and>
   parseFile messages None = []"
  by (simp add: parseFile_def parse_loop_assemble spec_lines_def spec_assemble_length)

lemma chat_lines: "spec_lines chat =
  [js ''hola'', js ''[25/07/25, 12:13:12 p. m.] Ana: Pichanga'', js ''D'' @ 237 # js ''a: viernes'', js ''1. Luis'',
   js ''[26/07/25, 1:05:00 a. m.] Luis: ok'']"
  by (simp add: spec_lines_def chat_def js_def trim_def isWhiteSpace_def)

lemmas re_defs = match_def attempt_def first_way_def capture_def digit_def space_def dot_def chr_def many_def many1_def
  lazy_many_def between_def optional_def isDigit_def isWhiteSpace_def isLineTerminator_def

lemma h1: "headerMatch (js ''[25/07/25, 12:13:12 p. m.] Ana: Pichanga'') =
   Some [(0, js ''[25/07/25, 12:13:12 p. m.] Ana: Pichanga''), (4, js ''Pichanga''), (3, js ''Ana''), (2, js ''12:13:12 p. m.''), (1, js ''25/07/25'')]"
  by (simp add: headerMatch_def messagePattern_def headerStamp_def datePattern_def re_defs js_def)

lemmas header_defs = headerMatch_def messagePattern_def systemPattern_def headerStamp_def datePattern_def re_defs js_def

lemma h2: "headerMatch (js ''[26/07/25, 1:05:00 a. m.] Luis: ok'') =
   Some [(0, js ''[26/07/25, 1:05:00 a. m.] Luis: ok''), (4, js ''ok''), (3, js ''Luis''), (2, js ''1:05:00 a. m.''), (1, js ''26/07/25'')]"
  by (simp add: header_defs)

lemma h3: "headerMatch (js ''hola'') = None" "headerMatch (js ''D'' @ 237 # js ''a: viernes'') = None"
  "headerMatch (js ''1. Luis'') = None"
  by (simp_all add: header_defs)

lemma split_chat: "split 10 chat =
  [js ''hola'', js ''[25/07/25, 12:13:12 p. m.] Ana: Pichanga'', js ''D'' @ 237 # js ''a: viernes'', js ''  '', js ''1. Luis '',
   js ''[26/07/25, 1:05:00 a. m.] Luis: ok'']"
  by (simp add: chat_def js_def)

lemma trim_chat:
  "trim (js ''hola'') = js ''hola''"
  "trim (js ''[25/07/25, 12:13:12 p. m.] Ana: Pichanga'') = js ''[25/07/25, 12:13:12 p. m.] Ana: Pichanga''"
  "trim (js ''D'' @ 237 # js ''a: viernes'') = js ''D'' @ 237 # js ''a: viernes''"
  "trim (js ''  '') = []"
  "trim (js ''1. Luis '') = js ''1. Luis''"
  "trim (js ''[26/07/25, 1:05:00 a. m.] Luis: ok'') = js ''[26/07/25, 1:05:00 a. m.] Luis: ok''"
  "trim (js ''Ana'') = js ''Ana''" "trim (js ''Luis'') = js ''Luis''"
  by (simp_all add: trim_def js_def isWhiteSpace_def)

lemma parseFile_chat: "parseFile [] (Some chat) = [msg1, msg2]"
proof -
  have ne: "js ''hola'' \<noteq> []" "js ''[25/07/25, 12:13:12 p. m.] Ana: Pichanga'' \<noteq> []"
    "js ''D'' @ 237 # js ''a: viernes'' \<noteq> []" "js ''1. Luis'' \<noteq> []"
    "js ''[26/07/25, 1:05:00 a. m.] Luis: ok'' \<noteq> []"
    by (simp_all add: js_def)
  have "parse_loop (split 10 chat) ([], None) = Inr [msg1, msg2]"
    unfolding split_chat
    by (simp add: parse_step_def trim_chat h1 h2 h3 ne capture_def str_def Let_def msg1_def msg2_def)
       (simp add: js_def)
  then show ?thesis by (simp add: parseFile_def)
qed

theorem parseFile_assembles_witness:
  "parseFile [] (Some chat) = [msg1, msg2] \<and>
   spec_assemble (spec_lines chat) = [msg1, msg2] \<and>
   length (filter isHeader (spec_lines chat)) = 2"
proof -
  have a: "spec_assemble (spec_lines chat) = [msg1, msg2]"
    using parseFile_assembles [of "[]" chat] by (simp add: parseFile_chat)
  have "length (filter isHeader (spec_lines chat)) = length (spec_assemble (spec_lines chat))"
    using parseFile_assembles [of "[]" chat] by simp
  then show ?thesis using a by (simp add: parseFile_chat)
qed

section \<open>Parsing timestamps\<close>

lemma matches_index:
  "(i', s', c') \<in> set (matches r (i, s, c)) \<Longrightarrow> \<exists>pre. s = pre @ s' \<and> i' = i + length pre"
proof (induction r "(i, s, c)" arbitrary: i s c i' s' c' rule: matches.induct)
  case (1 P i c)
  then show ?case by simp
next
  case (2 P i x xs c)
  then show ?case by (auto split: if_splits)
next
  case (3 a b i s c)
  from "3.prems" obtain j t d where x: "(j, t, d) \<in> set (matches a (i, s, c))" "(i', s', c') \<in> set (matches b (j, t, d))"
    by auto
  from "3.hyps"(1) [OF x(1)] obtain p where p: "s = p @ t" "j = i + length p" by blast
  from "3.hyps"(2) [OF x(1) x(2)] obtain q where q: "t = q @ s'" "i' = j + length q" by blast
  from p q have "s = (p @ q) @ s' \<and> i' = i + length (p @ q)" by simp
  then show ?case by blast
next
  case (4 n r i s c)
  from "4.prems" obtain d where x: "(i', s', d) \<in> set (matches r (i, s, c))"
    by auto
  from "4.hyps" [OF x] show ?case .
next
  case (5 i s c)
  then show ?case by (auto split: if_splits)
next
  case (6 i s c)
  then show ?case by (auto split: if_splits)
next
  case (7 lo hi g r i s c)
  show ?case
  proof (cases "hi = Some 0")
    case True
    with "7.prems" show ?thesis by simp
  next
    case False
    have "(i', s', c') = (i, s, c) \<or> (\<exists>j t d. (j, t, d) \<in> set (matches r (i, s, c)) \<and> length t < length s \<and>
            (i', s', c') \<in> set (matches (Rep (lo - 1) (map_option (\<lambda>h. h - 1) hi) g r) (j, t, d)))"
    proof -
      have eq: "matches (Rep lo hi g r) (i, s, c) =
        (let more = concat (map (\<lambda>(i', s', c').
                         if length s' < length s
                         then matches (Rep (lo - 1) (map_option (\<lambda>h. h - 1) hi) g r) (i', s', c')
                         else [])
                       (matches r (i, s, c)));
               stop = (if lo = 0 then [(i, s, c)] else [])
           in if g then more @ stop else stop @ more)"
        using False by (simp only: matches.simps(7) [of lo hi g r i s c] if_False)
      show ?thesis
        using "7.prems" unfolding eq
        by (auto simp del: matches.simps simp: Let_def split: if_splits)
    qed
    then show ?thesis
    proof
      assume "(i', s', c') = (i, s, c)"
      then show ?thesis by simp
    next
      assume "\<exists>j t d. (j, t, d) \<in> set (matches r (i, s, c)) \<and> length t < length s \<and>
            (i', s', c') \<in> set (matches (Rep (lo - 1) (map_option (\<lambda>h. h - 1) hi) g r) (j, t, d))"
      then obtain j t d where x: "(j, t, d) \<in> set (matches r (i, s, c))" "length t < length s"
        "(i', s', c') \<in> set (matches (Rep (lo - 1) (map_option (\<lambda>h. h - 1) hi) g r) (j, t, d))" by blast
      from "7.hyps"(1) [OF False x(1)] obtain p where p: "s = p @ t" "j = i + length p" by blast
      from "7.hyps"(2) [OF False x(1) refl refl x(2) x(3)] obtain q where q: "t = q @ s'" "i' = j + length q" by blast
      from p q have "s = (p @ q) @ s' \<and> i' = i + length (p @ q)" by simp
      then show ?thesis by blast
    qed
  qed
qed

lemma rep_run:
  "list_all P xs \<Longrightarrow> rest = [] \<or> \<not> P (hd rest) \<Longrightarrow> lo \<le> length xs \<Longrightarrow>
   (\<forall>h. hi = Some h \<longrightarrow> length xs \<le> h) \<Longrightarrow>
   \<exists>tl. matches (Rep lo hi True (Cls P)) (i, xs @ rest, c) = (i + length xs, rest, c) # tl"
proof (induction xs arbitrary: lo hi i)
  case Nil
  have none: "matches (Cls P) (i, rest, c) = []"
    using Nil.prems(2) by (cases rest) auto
  show ?case
  proof (cases "hi = Some 0")
    case True
    then show ?thesis by simp
  next
    case False
    then show ?thesis
      using Nil.prems(3) none
      by (simp only: matches.simps(7) [of lo hi True "Cls P" i "[] @ rest" c] if_False Let_def)
         simp
  qed
next
  case (Cons x xs)
  have hi: "hi \<noteq> Some 0" using Cons.prems(4) by auto
  have one: "matches (Cls P) (i, (x # xs) @ rest, c) = [(Suc i, xs @ rest, c)]"
    using Cons.prems(1) by simp
  have "\<exists>tl. matches (Rep (lo - 1) (map_option (\<lambda>h. h - 1) hi) True (Cls P)) (Suc i, xs @ rest, c)
          = (Suc i + length xs, rest, c) # tl"
  proof (rule Cons.IH)
    show "list_all P xs" using Cons.prems(1) by simp
    show "rest = [] \<or> \<not> P (hd rest)" by (rule Cons.prems(2))
    show "lo - 1 \<le> length xs" using Cons.prems(3) by simp
    show "\<forall>h. map_option (\<lambda>h. h - 1) hi = Some h \<longrightarrow> length xs \<le> h"
      using Cons.prems(4) by auto
  qed
  then obtain tl where tl: "matches (Rep (lo - 1) (map_option (\<lambda>h. h - 1) hi) True (Cls P)) (Suc i, xs @ rest, c)
          = (Suc i + length xs, rest, c) # tl" by blast
  have "matches (Rep lo hi True (Cls P)) (i, (x # xs) @ rest, c) =
     ((Suc i + length xs, rest, c) # tl) @ (if lo = 0 then [(i, (x # xs) @ rest, c)] else [])"
    using hi
    by (simp only: matches.simps(7) [of lo hi True "Cls P" i "(x # xs) @ rest" c] if_False Let_def one)
       (simp add: tl [unfolded One_nat_def] del: matches.simps)
  then show ?case by simp
qed

lemma leads_rep:
  "list_all P xs \<Longrightarrow> rest = [] \<or> \<not> P (hd rest) \<Longrightarrow> lo \<le> length xs \<Longrightarrow>
   (\<forall>h. hi = Some h \<longrightarrow> length xs \<le> h) \<Longrightarrow> leads (Rep lo hi True (Cls P)) (xs @ rest) c rest c"
  unfolding leads_def first_way_def
proof
  fix i
  assume "list_all P xs" "rest = [] \<or> \<not> P (hd rest)" "lo \<le> length xs" "\<forall>h. hi = Some h \<longrightarrow> length xs \<le> h"
  from rep_run [OF this, of i c] obtain tl where
    "matches (Rep lo hi True (Cls P)) (i, xs @ rest, c) = (i + length xs, rest, c) # tl" by blast
  then show "\<exists>i'. (case matches (Rep lo hi True (Cls P)) (i, xs @ rest, c) of [] \<Rightarrow> None | m # x \<Rightarrow> Some m) = Some (i', rest, c)"
    by simp
qed

lemma leads_seq: "leads a s c s' c' \<Longrightarrow> leads b s' c' s'' c'' \<Longrightarrow> leads (Seq a b) s c s'' c''"
  unfolding leads_def first_way_def
proof
  fix i
  assume a: "\<forall>i. \<exists>i'. (case matches a (i, s, c) of [] \<Rightarrow> None | m # x \<Rightarrow> Some m) = Some (i', s', c')"
    and b: "\<forall>i. \<exists>i'. (case matches b (i, s', c') of [] \<Rightarrow> None | m # x \<Rightarrow> Some m) = Some (i', s'', c'')"
  from a obtain j xs where j: "matches a (i, s, c) = (j, s', c') # xs"
    by (metis (no_types, lifting) list.case_eq_if list.collapse option.distinct(1) option.inject)
  from b obtain k ys where k: "matches b (j, s', c') = (k, s'', c'') # ys"
    by (metis (no_types, lifting) list.case_eq_if list.collapse option.distinct(1) option.inject)
  show "\<exists>i'. (case matches (Seq a b) (i, s, c) of [] \<Rightarrow> None | m # x \<Rightarrow> Some m) = Some (i', s'', c'')"
    by (simp add: j k)
qed

lemma leads_cls: "P x \<Longrightarrow> leads (Cls P) (x # xs) c xs c"
  by (simp add: leads_def first_way_def)

lemma leads_eol: "leads Eol [] c [] c"
  by (simp add: leads_def first_way_def)

lemma leads_grp:
  assumes "leads r (pre @ rest) c rest c'"
  shows "leads (Grp n r) (pre @ rest) c rest ((n, pre) # c')"
  unfolding leads_def first_way_def
proof
  fix i
  from assms obtain j xs where j: "matches r (i, pre @ rest, c) = (j, rest, c') # xs"
    unfolding leads_def first_way_def
    by (metis (no_types, lifting) list.case_eq_if list.collapse option.distinct(1) option.inject)
  then have "(j, rest, c') \<in> set (matches r (i, pre @ rest, c))" by simp
  from matches_index [OF this] have "j = i + length pre" by auto
  then show "\<exists>i'. (case matches (Grp n r) (i, pre @ rest, c) of [] \<Rightarrow> None | m # x \<Rightarrow> Some m) = Some (i', rest, (n, pre) # c')"
    using j by simp
qed

lemma leads_bol:
  assumes "leads r s c [] c'"
  shows "first_way (Seq Bol r) (0, s, c) = Some (length s, [], c')"
proof -
  from assms obtain j xs where j: "matches r (0, s, c) = (j, [], c') # xs"
    unfolding leads_def first_way_def
    by (metis (no_types, lifting) list.case_eq_if list.collapse option.distinct(1) option.inject)
  then have "(j, [], c') \<in> set (matches r (0, s, c))" by simp
  from matches_index [OF this] have "j = length s" by auto
  then show ?thesis using j by (simp add: first_way_def)
qed

lemma digit_not_space: "isDigit c \<Longrightarrow> \<not> isWhiteSpace c"
  by (auto simp: isDigit_def isWhiteSpace_def)

lemma meridiemLetter_iff: "meridiemLetter c \<longleftrightarrow> c = 97 \<or> c = 65 \<or> c = 112 \<or> c = 80"
  by (auto simp: meridiemLetter_def canonicalize_def upperChar_def split: if_splits)

lemma canonical_m: "canonicalize c = canonicalize 109 \<longleftrightarrow> c = 109 \<or> c = 77"
  by (auto simp: canonicalize_def upperChar_def split: if_splits)

lemma hd_run:
  "list_all P ws \<Longrightarrow> Q x \<Longrightarrow> (\<And>c. P c \<Longrightarrow> Q c) \<Longrightarrow> Q (hd (ws @ x # xs))"
  by (cases ws) auto

lemma date_leads:
  assumes "list_all isDigit D" "1 \<le> length D" "length D \<le> 2"
    and "list_all isDigit M" "1 \<le> length M" "length M \<le> 2"
    and "list_all isDigit Y" "2 \<le> length Y" "length Y \<le> 4"
    and "rest = [] \<or> \<not> isDigit (hd rest)"
  shows "leads datePattern (D @ 47 # M @ 47 # Y @ rest) c rest c"
proof -
  have 1: "leads (Rep 1 (Some 2) True (Cls isDigit)) (D @ 47 # M @ 47 # Y @ rest) c (47 # M @ 47 # Y @ rest) c"
    using assms by (intro leads_rep [where P = isDigit] leads_rep [where P = isWhiteSpace] leads_rep [where P = "\<lambda>c. c = 46"]) (simp_all add: isDigit_def)
  have 2: "leads (Cls (\<lambda>c. c = 47)) (47 # M @ 47 # Y @ rest) c (M @ 47 # Y @ rest) c"
    by (rule leads_cls) simp
  have 3: "leads (Rep 1 (Some 2) True (Cls isDigit)) (M @ 47 # Y @ rest) c (47 # Y @ rest) c"
    using assms by (intro leads_rep [where P = isDigit] leads_rep [where P = isWhiteSpace] leads_rep [where P = "\<lambda>c. c = 46"]) (simp_all add: isDigit_def)
  have 4: "leads (Cls (\<lambda>c. c = 47)) (47 # Y @ rest) c (Y @ rest) c"
    by (rule leads_cls) simp
  have 5: "leads (Rep 2 (Some 4) True (Cls isDigit)) (Y @ rest) c rest c"
    using assms by (intro leads_rep [where P = isDigit] leads_rep [where P = isWhiteSpace] leads_rep [where P = "\<lambda>c. c = 46"]) simp_all
  show ?thesis
    unfolding datePattern_def seqs.simps between_def chr_def digit_def
    by (rule leads_seq [OF 1 leads_seq [OF 2 leads_seq [OF 3 leads_seq [OF 4 5]]]])
qed

lemma time_leads:
  assumes "list_all isDigit H" "1 \<le> length H" "length H \<le> 2"
    and "list_all isDigit MI" "length MI = 2"
    and "list_all isDigit S" "length S = 2"
    and "rest = [] \<or> \<not> isDigit (hd rest)"
  shows "leads timePattern (H @ 58 # MI @ 58 # S @ rest) c rest c"
proof -
  have 1: "leads (Rep 1 (Some 2) True (Cls isDigit)) (H @ 58 # MI @ 58 # S @ rest) c (58 # MI @ 58 # S @ rest) c"
    using assms by (intro leads_rep [where P = isDigit] leads_rep [where P = isWhiteSpace] leads_rep [where P = "\<lambda>c. c = 46"]) (simp_all add: isDigit_def)
  have 2: "leads (Cls (\<lambda>c. c = 58)) (58 # MI @ 58 # S @ rest) c (MI @ 58 # S @ rest) c"
    by (rule leads_cls) simp
  have 3: "leads (Rep 2 (Some 2) True (Cls isDigit)) (MI @ 58 # S @ rest) c (58 # S @ rest) c"
    using assms by (intro leads_rep [where P = isDigit] leads_rep [where P = isWhiteSpace] leads_rep [where P = "\<lambda>c. c = 46"]) (simp_all add: isDigit_def)
  have 4: "leads (Cls (\<lambda>c. c = 58)) (58 # S @ rest) c (S @ rest) c"
    by (rule leads_cls) simp
  have 5: "leads (Rep 2 (Some 2) True (Cls isDigit)) (S @ rest) c rest c"
    using assms by (intro leads_rep [where P = isDigit] leads_rep [where P = isWhiteSpace] leads_rep [where P = "\<lambda>c. c = 46"]) simp_all
  show ?thesis
    unfolding timePattern_def seqs.simps between_def chr_def digit_def
    by (rule leads_seq [OF 1 leads_seq [OF 2 leads_seq [OF 3 leads_seq [OF 4 5]]]])
qed

lemma meridiem_leads:
  assumes "meridiemLetter p" "list_all (\<lambda>c. c = 46) dot1" "length dot1 \<le> 1"
    and "list_all isWhiteSpace ws" "m = 109 \<or> m = 77"
    and "list_all (\<lambda>c. c = 46) dot2" "length dot2 \<le> 1"
  shows "leads meridiemPattern (p # dot1 @ ws @ m # dot2) c [] c"
proof -
  have 1: "leads (Cls meridiemLetter) (p # dot1 @ ws @ m # dot2) c (dot1 @ ws @ m # dot2) c"
    using assms(1) by (rule leads_cls)
  have b: "hd (ws @ m # dot2) \<noteq> 46"
  proof (rule hd_run [where P = isWhiteSpace and Q = "\<lambda>c. c \<noteq> 46"])
    show "list_all isWhiteSpace ws" by (rule assms(4))
    show "m \<noteq> 46" using assms(5) by auto
    show "c \<noteq> 46" if "isWhiteSpace c" for c using that by (auto simp: isWhiteSpace_def)
  qed
  have 2: "leads (Rep 0 (Some 1) True (Cls (\<lambda>c. c = 46))) (dot1 @ ws @ m # dot2) c (ws @ m # dot2) c"
    using assms b by (intro leads_rep [where P = isDigit] leads_rep [where P = isWhiteSpace] leads_rep [where P = "\<lambda>c. c = 46"]) simp_all
  have 3: "leads (Rep 0 None True (Cls isWhiteSpace)) (ws @ m # dot2) c (m # dot2) c"
    using assms by (intro leads_rep [where P = isDigit] leads_rep [where P = isWhiteSpace] leads_rep [where P = "\<lambda>c. c = 46"]) (auto simp: isWhiteSpace_def)
  have 4: "leads (Cls (\<lambda>c. canonicalize c = canonicalize 109)) (m # dot2) c dot2 c"
    using assms(5) by (intro leads_cls [where P = "\<lambda>c. canonicalize c = canonicalize 109"]) (simp add: canonical_m)
  have 5: "leads (Rep 0 (Some 1) True (Cls (\<lambda>c. c = 46))) (dot2 @ []) c [] c"
    using assms by (intro leads_rep [where P = isDigit] leads_rep [where P = isWhiteSpace] leads_rep [where P = "\<lambda>c. c = 46"]) simp_all
  show ?thesis
    unfolding meridiemPattern_def seqs.simps optional_def many_def space_def chr_def ichr_def
    using leads_seq [OF 1 leads_seq [OF 2 leads_seq [OF 3 leads_seq [OF 4 5 [unfolded append_Nil2]]]]] .
qed

lemma search_from_hit: "attempt r i s = Some m \<Longrightarrow> search_from r i s = Some (i, m)"
  by (cases s) simp_all

lemma match_hit:
  "first_way r (0, s, []) = Some (length s, [], c) \<Longrightarrow> match r s = Some ((0, s) # c)"
  by (simp add: match_def attempt_def search_from_hit)

lemma formatFull_match:
  assumes "list_all isDigit D" "1 \<le> length D" "length D \<le> 2"
    and "list_all isDigit M" "1 \<le> length M" "length M \<le> 2"
    and "list_all isDigit Y" "2 \<le> length Y" "length Y \<le> 4"
    and "list_all isWhiteSpace ws1"
    and "list_all isDigit H" "1 \<le> length H" "length H \<le> 2"
    and "list_all isDigit MI" "length MI = 2"
    and "list_all isDigit S" "length S = 2"
    and "list_all isWhiteSpace ws2"
    and "meridiemLetter p" "list_all (\<lambda>c. c = 46) dot1" "length dot1 \<le> 1"
    and "list_all isWhiteSpace ws3" "m = 109 \<or> m = 77"
    and "list_all (\<lambda>c. c = 46) dot2" "length dot2 \<le> 1"
  shows "match formatFull ((D @ 47 # M @ 47 # Y) @ 44 # ws1 @ (H @ 58 # MI @ 58 # S) @ ws2 @ p # dot1 @ ws3 @ m # dot2) =
     Some [(0, (D @ 47 # M @ 47 # Y) @ 44 # ws1 @ (H @ 58 # MI @ 58 # S) @ ws2 @ p # dot1 @ ws3 @ m # dot2),
           (3, p # dot1 @ ws3 @ m # dot2), (2, H @ 58 # MI @ 58 # S), (1, D @ 47 # M @ 47 # Y)]"
proof -
  define DP where "DP = D @ 47 # M @ 47 # Y"
  define TP where "TP = H @ 58 # MI @ 58 # S"
  define PP where "PP = p # dot1 @ ws3 @ m # dot2"
  have H: "H \<noteq> []" "isDigit (hd H)" using assms(11,12) by (cases H; simp)+
  have p: "\<not> isDigit p" "\<not> isWhiteSpace p"
    using assms(19) by (auto simp: meridiemLetter_iff isDigit_def isWhiteSpace_def)
  have "leads datePattern (D @ 47 # M @ 47 # Y @ 44 # ws1 @ TP @ ws2 @ PP) [] (44 # ws1 @ TP @ ws2 @ PP) []"
    using assms by (intro date_leads) (simp_all add: isDigit_def)
  then have "leads datePattern (DP @ (44 # ws1 @ TP @ ws2 @ PP)) [] (44 # ws1 @ TP @ ws2 @ PP) []"
    by (simp add: DP_def)
  then have 1: "leads (Grp 1 datePattern) (DP @ (44 # ws1 @ TP @ ws2 @ PP)) [] (44 # ws1 @ TP @ ws2 @ PP) [(1, DP)]"
    by (rule leads_grp)
  have 2: "leads (Cls (\<lambda>c. c = 44)) (44 # ws1 @ TP @ ws2 @ PP) [(1, DP)] (ws1 @ TP @ ws2 @ PP) [(1, DP)]"
    by (rule leads_cls) simp
  have "hd (TP @ ws2 @ PP) = hd H" using H by (simp add: TP_def)
  then have 3: "leads (Rep 0 None True (Cls isWhiteSpace)) (ws1 @ TP @ ws2 @ PP) [(1, DP)] (TP @ ws2 @ PP) [(1, DP)]"
    using assms(10) H by (intro leads_rep [where P = isDigit] leads_rep [where P = isWhiteSpace] leads_rep [where P = "\<lambda>c. c = 46"]) (simp_all add: digit_not_space)
  have b: "\<not> isDigit (hd (ws2 @ PP))"
    unfolding PP_def
  proof (rule hd_run [where P = isWhiteSpace and Q = "\<lambda>c. \<not> isDigit c"])
    show "list_all isWhiteSpace ws2" by (rule assms(18))
    show "\<not> isDigit p" by (rule p(1))
    show "\<not> isDigit c" if "isWhiteSpace c" for c using that digit_not_space by blast
  qed
  have "leads timePattern (H @ 58 # MI @ 58 # S @ ws2 @ PP) [(1, DP)] (ws2 @ PP) [(1, DP)]"
    using assms b by (intro time_leads) simp_all
  then have "leads timePattern (TP @ (ws2 @ PP)) [(1, DP)] (ws2 @ PP) [(1, DP)]"
    by (simp add: TP_def)
  then have 4: "leads (Grp 2 timePattern) (TP @ (ws2 @ PP)) [(1, DP)] (ws2 @ PP) [(2, TP), (1, DP)]"
    by (rule leads_grp)
  have 5: "leads (Rep 0 None True (Cls isWhiteSpace)) (ws2 @ PP) [(2, TP), (1, DP)] PP [(2, TP), (1, DP)]"
    using assms(18) p(2) by (intro leads_rep [where P = isDigit] leads_rep [where P = isWhiteSpace] leads_rep [where P = "\<lambda>c. c = 46"]) (simp_all add: PP_def)
  have "leads meridiemPattern (PP @ []) [(2, TP), (1, DP)] [] [(2, TP), (1, DP)]"
    using assms unfolding PP_def append_Nil2 by (intro meridiem_leads)
  then have "leads (Grp 3 meridiemPattern) (PP @ []) [(2, TP), (1, DP)] [] [(3, PP), (2, TP), (1, DP)]"
    by (rule leads_grp)
  then have 6: "leads (Grp 3 meridiemPattern) PP [(2, TP), (1, DP)] [] [(3, PP), (2, TP), (1, DP)]"
    by simp
  have 7: "leads Eol [] [(3, PP), (2, TP), (1, DP)] [] [(3, PP), (2, TP), (1, DP)]"
    by (rule leads_eol)
  have "first_way formatFull (0, DP @ 44 # ws1 @ TP @ ws2 @ PP, [])
          = Some (length (DP @ 44 # ws1 @ TP @ ws2 @ PP), [], [(3, PP), (2, TP), (1, DP)])"
    unfolding formatFull_def seqs.simps many_def space_def chr_def
    by (rule leads_bol [OF leads_seq [OF 1 leads_seq [OF 2 leads_seq [OF 3 [unfolded append_assoc]
          leads_seq [OF 4 leads_seq [OF 5 leads_seq [OF 6 7]]]]]]])
  from match_hit [OF this] show ?thesis by (simp add: DP_def TP_def PP_def)
qed

lemma replaceAll_from_cls: "replaceAll_from (Cls P) [] i s = filter (\<lambda>c. \<not> P c) s"
  by (induction s arbitrary: i) (simp_all add: attempt_def first_way_def)

lemma replaceAll_cls: "replaceAll (Cls P) [] s = filter (\<lambda>c. \<not> P c) s"
  by (simp add: replaceAll_def replaceAll_from_cls)

lemma trim_id: "s \<noteq> [] \<Longrightarrow> \<not> isWhiteSpace (hd s) \<Longrightarrow> \<not> isWhiteSpace (last s) \<Longrightarrow> trim s = s"
proof -
  assume a: "s \<noteq> []" "\<not> isWhiteSpace (hd s)" "\<not> isWhiteSpace (last s)"
  then have 1: "dropWhile isWhiteSpace s = s" by (simp add: dropWhile_eq_self_iff)
  have "hd (rev s) = last s" using a(1) by (simp add: hd_rev)
  then have 2: "dropWhile isWhiteSpace (rev s) = rev s" using a by (simp add: dropWhile_eq_self_iff)
  show ?thesis by (simp add: trim_def 1 2)
qed

lemma split_nonempty: "split sep s \<noteq> []"
  by (induction s) (auto split: list.splits)

lemma split_none: "sep \<notin> set xs \<Longrightarrow> split sep xs = [xs]"
  by (induction xs) auto

lemma split_sep: "sep \<notin> set xs \<Longrightarrow> split sep (xs @ sep # rest) = xs # split sep rest"
  by (induction xs) (auto split: list.splits simp: split_nonempty)

lemma digits_no_sep: "list_all isDigit ds \<Longrightarrow> 47 \<notin> set ds \<and> 58 \<notin> set ds \<and> 8206 \<notin> set ds"
  by (auto simp: list_all_iff isDigit_def)

lemma Number_digits: "list_all isDigit ds \<Longrightarrow> ds \<noteq> [] \<Longrightarrow> Number ds = Some (digitsValue ds)"
proof -
  assume a: "list_all isDigit ds" "ds \<noteq> []"
  then have "isDigit (hd ds)" "isDigit (last ds)" by (auto simp: list_all_iff)
  then have "trim ds = ds" using a(2) by (intro trim_id) (auto dest: digit_not_space)
  then show ?thesis using a by (simp add: Number_def)
qed

lemma two_digits: "list_all isDigit ds \<Longrightarrow> length ds = 2 \<Longrightarrow> 0 \<le> digitsValue ds \<and> digitsValue ds < 100"
proof -
  assume a: "list_all isDigit ds" "length ds = 2"
  then obtain x y where "ds = [x, y]" by (cases ds; cases "tl ds"; auto)
  then show ?thesis using a by (auto simp: digitsValue_def isDigit_def)
qed

lemma space_lower: "isWhiteSpace c \<Longrightarrow> lowerChar c = c \<and> c \<noteq> 112 \<and> c \<noteq> 97 \<and> c \<noteq> 8206"
  by (auto simp: isWhiteSpace_def lowerChar_def)

lemma period_letters:
  assumes "meridiemLetter p" "list_all (\<lambda>c. c = 46) dot1" "list_all isWhiteSpace ws" "m = 109 \<or> m = 77"
    "list_all (\<lambda>c. c = 46) dot2"
  shows "112 \<in> set (toLowerCase (p # dot1 @ ws @ m # dot2)) \<longleftrightarrow> p = 112 \<or> p = 80"
    and "97 \<in> set (toLowerCase (p # dot1 @ ws @ m # dot2)) \<longleftrightarrow> p = 97 \<or> p = 65"
proof -
  have d: "\<forall>c \<in> set dot1 \<union> set dot2. lowerChar c = 46"
    using assms(2,5) by (auto simp: list_all_iff lowerChar_def)
  have w: "\<forall>c \<in> set ws. lowerChar c \<noteq> 112 \<and> lowerChar c \<noteq> 97"
    using assms(3) space_lower by (auto simp: list_all_iff)
  have m: "lowerChar m = 109" using assms(4) by (auto simp: lowerChar_def)
  have p: "lowerChar p = 112 \<longleftrightarrow> p = 112 \<or> p = 80" "lowerChar p = 97 \<longleftrightarrow> p = 97 \<or> p = 65"
    using assms(1) by (auto simp: meridiemLetter_iff lowerChar_def)
  show "112 \<in> set (toLowerCase (p # dot1 @ ws @ m # dot2)) \<longleftrightarrow> p = 112 \<or> p = 80"
    using d w m p(1) by (auto simp: toLowerCase_def)
  show "97 \<in> set (toLowerCase (p # dot1 @ ws @ m # dot2)) \<longleftrightarrow> p = 97 \<or> p = 65"
    using d w m p(2) by (auto simp: toLowerCase_def)
qed

lemma shape_parse:
  assumes "fullShape D M Y ws1 H MI S ws2 p dot1 ws3 m dot2"
  shows "parseTimestamp now (shapeText D M Y ws1 H MI S ws2 p dot1 ws3 m dot2) =
     (newDate (Some (2000 + digitsValue Y)) (Some (digitsValue M - 1)) (Some (digitsValue D))
        (if (p = 112 \<or> p = 80) \<and> digitsValue H \<noteq> 12 then digitsValue H + 12
         else if (p = 97 \<or> p = 65) \<and> digitsValue H = 12 then 0
         else digitsValue H)
        (digitsValue MI) (digitsValue S), [])"
proof -
  let ?ts = "shapeText D M Y ws1 H MI S ws2 p dot1 ws3 m dot2"
  let ?PP = "p # dot1 @ ws3 @ m # dot2"
  have a: "list_all isDigit D" "1 \<le> length D" "length D \<le> 2"
    "list_all isDigit M" "1 \<le> length M" "length M \<le> 2"
    "list_all isDigit Y" "length Y = 2"
    "list_all isWhiteSpace ws1"
    "list_all isDigit H" "1 \<le> length H" "length H \<le> 2"
    "list_all isDigit MI" "length MI = 2"
    "list_all isDigit S" "length S = 2"
    "list_all isWhiteSpace ws2"
    "meridiemLetter p"
    "list_all (\<lambda>c. c = 46) dot1" "length dot1 \<le> 1"
    "list_all isWhiteSpace ws3" "m = 109 \<or> m = 77"
    "list_all (\<lambda>c. c = 46) dot2" "length dot2 \<le> 1"
    using assms by (auto simp: fullShape_def meridiemLetter_iff)
  have ne: "D \<noteq> []" "M \<noteq> []" "Y \<noteq> []" "H \<noteq> []" "MI \<noteq> []" "S \<noteq> []"
    using a by auto
  have w: "8206 \<notin> set ws" if "list_all isWhiteSpace ws" for ws
    using that space_lower by (auto simp: list_all_iff)
  have d: "8206 \<notin> set ds" if "list_all (\<lambda>c. c = 46) ds" for ds :: jsstring
    using that by (auto simp: list_all_iff)
  have pm: "p \<noteq> 8206" "m \<noteq> 8206" using a(18,22) by (auto simp: meridiemLetter_iff)
  have no: "8206 \<notin> set ?ts"
    using digits_no_sep [OF a(1)] digits_no_sep [OF a(4)] digits_no_sep [OF a(7)]
      digits_no_sep [OF a(10)] digits_no_sep [OF a(13)] digits_no_sep [OF a(15)]
      w [OF a(9)] w [OF a(17)] w [OF a(21)] d [OF a(19)] d [OF a(23)] pm
    by (simp add: shapeText_def)
  have hd: "\<not> isWhiteSpace (hd ?ts)"
    using a(1) ne(1) by (cases D) (auto simp: shapeText_def dest: digit_not_space)
  have "last ?ts = (if dot2 = [] then m else 46)"
    using a(23) by (cases dot2 rule: rev_cases) (auto simp: shapeText_def)
  then have last: "\<not> isWhiteSpace (last ?ts)"
    using a(22) by (auto simp: isWhiteSpace_def)
  have clean: "cleanTimestamp ?ts = ?ts"
  proof -
    have "filter (\<lambda>c. c \<noteq> 8206) ?ts = ?ts" using no by (auto simp: filter_id_conv)
    moreover have "?ts \<noteq> []" by (simp add: shapeText_def)
    ultimately show ?thesis
      using hd last by (simp add: cleanTimestamp_def chr_def replaceAll_cls trim_id)
  qed
  have "match formatFull ?ts = Some [(0, ?ts), (3, ?PP), (2, H @ 58 # MI @ 58 # S), (1, D @ 47 # M @ 47 # Y)]"
    using formatFull_match [of D M Y ws1 H MI S ws2 p dot1 ws3 m dot2] a
    by (simp add: shapeText_def)
  then have fm: "firstMatch formats (cleanTimestamp ?ts) =
      Some [(0, ?ts), (3, ?PP), (2, H @ 58 # MI @ 58 # S), (1, D @ 47 # M @ 47 # Y)]"
    by (simp add: clean formats_def)
  have sd: "split 47 (D @ 47 # M @ 47 # Y) = [D, M, Y]"
    using a digits_no_sep by (simp add: split_sep split_none)
  have st: "split 58 (H @ 58 # MI @ 58 # S) = [H, MI, S]"
    using a digits_no_sep by (simp add: split_sep split_none)
  have y: "digitsValue Y < 100" using two_digits [OF a(7,8)] by simp
  have adj: "adjustHours (Some ?PP) h =
        (if (p = 112 \<or> p = 80) \<and> h \<noteq> 12 then h + 12
         else if (p = 97 \<or> p = 65) \<and> h = 12 then 0 else h)" for h
    using period_letters [OF a(18,19,21,22,23)] by (simp add: adjustHours_def)
  show ?thesis
    unfolding parseTimestamp_def parseTimestamp_try_def fm
    using a ne y
    by (simp add: capture_def sd st Number_digits item_def orZero_def adj Let_def del: set_append)
qed

lemma getHours_noon: "getHours (newDate (Some 2025) (Some 6) (Some 25) 12 13 12) = Some 12"
  by (simp add: getHours_def newDate_def TimeClip_def MakeDate_def MakeDay_def MakeTime_def
      DayFromYear_def daysBeforeMonth_def InLeapYear_def)

lemma getHours_one: "getHours (newDate (Some 2025) (Some 6) (Some 25) 1 5 0) = Some 1"
  by (simp add: getHours_def newDate_def TimeClip_def MakeDate_def MakeDay_def MakeTime_def
      DayFromYear_def daysBeforeMonth_def InLeapYear_def)

lemma shape_noon:
  "fullShape (js ''25'') (js ''07'') (js ''25'') (js '' '') (js ''12'') (js ''13'') (js ''12'') (js '' '')
     112 (js ''.'') (js '' '') 109 (js ''.'')"
  "shapeText (js ''25'') (js ''07'') (js ''25'') (js '' '') (js ''12'') (js ''13'') (js ''12'') (js '' '')
     112 (js ''.'') (js '' '') 109 (js ''.'') = js ''25/07/25, 12:13:12 p. m.''"
  "digitsValue (js ''25'') = 25" "digitsValue (js ''07'') = 7" "digitsValue (js ''12'') = 12"
  "digitsValue (js ''13'') = 13"
  by (simp_all add: fullShape_def shapeText_def js_def isDigit_def isWhiteSpace_def digitsValue_def)

lemma shape_one:
  "fullShape (js ''25'') (js ''07'') (js ''25'') (js '' '') (js ''1'') (js ''05'') (js ''00'') (js '' '')
     97 (js ''.'') (js '' '') 109 (js ''.'')"
  "shapeText (js ''25'') (js ''07'') (js ''25'') (js '' '') (js ''1'') (js ''05'') (js ''00'') (js '' '')
     97 (js ''.'') (js '' '') 109 (js ''.'') = js ''25/07/25, 1:05:00 a. m.''"
  "digitsValue (js ''1'') = 1" "digitsValue (js ''05'') = 5" "digitsValue (js ''00'') = 0"
  by (simp_all add: fullShape_def shapeText_def js_def isDigit_def isWhiteSpace_def digitsValue_def)

text \<open>
  C2. For every timestamp text of the full shape \<open>d/m/yy, H:MM:SS meridiem\<close> the parser
  returns, without a diagnostic, the date built from the year \<open>2000 + yy\<close>, the month
  \<open>m\<close> (as the month index \<open>m - 1\<close>), the day \<open>d\<close>, the minute, the second, and the
  hour \<open>h + 12\<close> when the meridiem has a p and \<open>h\<close> is not 12, 0 when it has an a and
  \<open>h\<close> is 12, and \<open>h\<close> otherwise. So "25/07/25, 12:13:12 p. m." has hour 12 and
  "25/07/25, 1:05:00 a. m." has hour 1.
\<close>

theorem parseTimestamp_full_shape:
  "(fullShape D M Y ws1 H MI S ws2 p dot1 ws3 m dot2 \<longrightarrow>
      parseTimestamp now (shapeText D M Y ws1 H MI S ws2 p dot1 ws3 m dot2) =
        (newDate (Some (2000 + digitsValue Y)) (Some (digitsValue M - 1)) (Some (digitsValue D))
           (if (p = 112 \<or> p = 80) \<and> digitsValue H \<noteq> 12 then digitsValue H + 12
            else if (p = 97 \<or> p = 65) \<and> digitsValue H = 12 then 0
            else digitsValue H)
           (digitsValue MI) (digitsValue S), [])) \<and>
   getHours (fst (parseTimestamp now (js ''25/07/25, 12:13:12 p. m.''))) = Some 12 \<and>
   getHours (fst (parseTimestamp now (js ''25/07/25, 1:05:00 a. m.''))) = Some 1"
proof (intro conjI impI)
  assume "fullShape D M Y ws1 H MI S ws2 p dot1 ws3 m dot2"
  then show "parseTimestamp now (shapeText D M Y ws1 H MI S ws2 p dot1 ws3 m dot2) =
        (newDate (Some (2000 + digitsValue Y)) (Some (digitsValue M - 1)) (Some (digitsValue D))
           (if (p = 112 \<or> p = 80) \<and> digitsValue H \<noteq> 12 then digitsValue H + 12
            else if (p = 97 \<or> p = 65) \<and> digitsValue H = 12 then 0
            else digitsValue H)
           (digitsValue MI) (digitsValue S), [])"
    by (rule shape_parse)
next
  show "getHours (fst (parseTimestamp now (js ''25/07/25, 12:13:12 p. m.''))) = Some 12"
    using shape_parse [OF shape_noon(1), of now] unfolding shape_noon by (simp add: getHours_noon)
next
  show "getHours (fst (parseTimestamp now (js ''25/07/25, 1:05:00 a. m.''))) = Some 1"
    using shape_parse [OF shape_one(1), of now] unfolding shape_one shape_noon by (simp add: getHours_one)
qed

theorem parseTimestamp_full_shape_witness:
  "fullShape (js ''25'') (js ''07'') (js ''25'') (js '' '') (js ''12'') (js ''13'') (js ''12'') (js '' '')
     112 (js ''.'') (js '' '') 109 (js ''.'') \<and>
   parseTimestamp 0 (js ''25/07/25, 12:13:12 p. m.'') =
     (newDate (Some 2025) (Some 6) (Some 25) 12 13 12, [])"
  using parseTimestamp_full_shape [of "js ''25''" "js ''07''" "js ''25''" "js '' ''" "js ''12''" "js ''13''"
      "js ''12''" "js '' ''" 112 "js ''.''" "js '' ''" 109 "js ''.''" 0]
  unfolding shape_noon by (simp add: shape_noon(1))

section \<open>Removing duplicate events\<close>

lemma map_of_map_set: "map_of (map_set m k v) = (map_of m)(k \<mapsto> v)"
  by (induction m k v rule: map_set.induct) auto

lemma keys_map_set:
  "map fst (map_set m k v) = (if k \<in> fst ` set m then map fst m else map fst m @ [k])"
  by (induction m k v rule: map_set.induct) auto

lemma set_map_set_new: "k \<notin> fst ` set m \<Longrightarrow> set (map_set m k v) = insert (k, v) (set m)"
  by (induction m k v rule: map_set.induct) auto

lemma set_map_set_old:
  "distinct (map fst m) \<Longrightarrow> map_of m k = Some old \<Longrightarrow>
   set (map_set m k v) = insert (k, v) (set m - {(k, old)})"
proof (induction m k v rule: map_set.induct)
  case (1 k v)
  then show ?case by simp
next
  case (2 k' v' m k v)
  show ?case
  proof (cases "k' = k")
    case True
    then have "old = v'" using "2.prems" by simp
    moreover have "(k, v') \<notin> set m" using True "2.prems"(1) by (auto simp: image_iff)
    ultimately show ?thesis using True by auto
  next
    case False
    then have "set (map_set m k v) = insert (k, v) (set m - {(k, old)})"
      using "2.IH" "2.prems" by simp
    then show ?thesis using False by auto
  qed
qed

lemma dedup_step_keyed:
  assumes "keyed pre em"
  shows "keyed (pre @ [e]) (fst (dedup_step clock (em, t) e))"
proof (cases "map_of em (eventKey e)")
  case None
  then have n: "eventKey e \<notin> fst ` set em" by (simp add: map_of_eq_None_iff)
  have "fst (dedup_step clock (em, t) e) = map_set em (eventKey e) e"
    using None by (simp add: dedup_step_def)
  then show ?thesis
    using assms n by (auto simp: keyed_def keys_map_set set_map_set_new)
next
  case (Some old)
  then have i: "eventKey e \<in> fst ` set em" by (metis map_of_eq_None_iff option.distinct(1))
  have d: "distinct (map fst em)" using assms by (simp add: keyed_def)
  have "fst (dedup_step clock (em, t) e) = em \<or> fst (dedup_step clock (em, t) e) = map_set em (eventKey e) e"
    using Some by (simp add: dedup_step_def Let_def)
  then show ?thesis
  proof
    assume "fst (dedup_step clock (em, t) e) = em"
    then show ?thesis using assms i by (auto simp: keyed_def)
  next
    assume r: "fst (dedup_step clock (em, t) e) = map_set em (eventKey e) e"
    have 1: "distinct (map fst (map_set em (eventKey e) e))"
      using d i by (simp add: keys_map_set)
    have 2: "\<forall>(k, s) \<in> set (map_set em (eventKey e) e). eventKey s = k \<and> s \<in> set (pre @ [e])"
      using assms by (auto simp: keyed_def set_map_set_old [OF d Some])
    have "set (map fst (map_set em (eventKey e) e)) = set (map fst em)"
      using i by (simp add: keys_map_set)
    then have 3: "fst ` set (map_set em (eventKey e) e) = eventKey ` set (pre @ [e])"
      using assms i by (auto simp: keyed_def)
    show ?thesis unfolding r keyed_def using 1 2 3 by blast
  qed
qed

lemma foldl_keyed: "keyed es (fst (foldl (dedup_step clock) ([], 0) es))"
proof (induction es rule: rev_induct)
  case Nil
  then show ?case by (simp add: keyed_def)
next
  case (snoc e es)
  obtain em t where st: "foldl (dedup_step clock) ([], 0) es = (em, t)"
    by (cases "foldl (dedup_step clock) ([], 0) es")
  then show ?case using snoc dedup_step_keyed [of es em e clock t] by simp
qed

lemma removeDuplicates_keys:
  "distinct (map eventKey (removeDuplicates clock es)) \<and>
   set (map eventKey (removeDuplicates clock es)) = set (map eventKey es)"
proof -
  let ?em = "fst (foldl (dedup_step clock) ([], 0) es)"
  have k: "keyed es ?em" by (rule foldl_keyed)
  then have "map eventKey (map snd ?em) = map fst ?em"
    by (auto simp: keyed_def)
  then show ?thesis using k by (simp add: removeDuplicates_def keyed_def del: map_map)
qed


lemma parseTimestamp_fallback:
  "firstMatch formats (cleanTimestamp stamp) = None \<Longrightarrow>
   parseTimestamp now stamp = (Some now, [UnrecognizedFormat stamp])"
  by (simp add: parseTimestamp_def parseTimestamp_try_def)

















section \<open>Day filter\<close>

lemma event_step_total: "\<exists>f'. event_step f l = Inr f'"
proof -
  have "capture m 1 \<noteq> None" if "match playerLine (trim l) = Some m" for m
    using match_caps [OF that, of 1] by (simp add: playerLine_def)
  then show ?thesis
    by (auto simp: event_step_def Let_def split: option.splits)
qed

lemma event_loop_total: "\<exists>f'. event_loop ls f = Inr f'"
proof (induction ls arbitrary: f)
  case Nil
  then show ?case by simp
next
  case (Cons l ls)
  from event_step_total [of f l] obtain g where "event_step f l = Inr g" by blast
  then show ?case using Cons [of g] by simp
qed

lemma trim_pad:
  assumes "list_all isWhiteSpace ws" "list_all isWhiteSpace ws'"
  shows "trim (ws @ d @ ws') = trim d"
proof -
  have l: "dropWhile isWhiteSpace (ws @ d @ ws') = dropWhile isWhiteSpace (d @ ws')"
    using assms(1) by (intro dropWhile_append2) (simp add: list_all_iff)
  show ?thesis
  proof (cases "list_all isWhiteSpace d")
    case True
    have "dropWhile isWhiteSpace xs = []" if "list_all isWhiteSpace xs" for xs
      using that by (simp add: list_all_iff)
    then have e: "dropWhile isWhiteSpace (d @ ws') = []" "dropWhile isWhiteSpace d = []"
      using assms(2) True by simp_all
    show ?thesis by (simp only: trim_def l e)
  next
    case False
    then obtain x where "x \<in> set d" "\<not> isWhiteSpace x" by (auto simp: list_all_iff)
    then have "dropWhile isWhiteSpace (d @ ws') = dropWhile isWhiteSpace d @ ws'"
      by (simp add: dropWhile_append1)
    moreover have "dropWhile isWhiteSpace (rev ws' @ r) = dropWhile isWhiteSpace r" for r
      using assms(2) by (intro dropWhile_append2) (simp add: list_all_iff)
    ultimately show ?thesis by (simp add: trim_def l)
  qed
qed

lemma toLowerCase_pad:
  "list_all isWhiteSpace ws \<Longrightarrow> toLowerCase ws = ws"
  using space_lower by (simp add: toLowerCase_def list_all_iff map_idI)

lemma normalized_pad:
  assumes "list_all isWhiteSpace ws" "list_all isWhiteSpace ws'"
  shows "trim (toLowerCase (ws @ d @ ws')) = trim (toLowerCase d)"
proof -
  have "toLowerCase (ws @ d @ ws') = ws @ toLowerCase d @ ws'"
    using toLowerCase_pad [OF assms(1)] toLowerCase_pad [OF assms(2)]
    by (simp add: toLowerCase_def)
  then show ?thesis using trim_pad [OF assms] by simp
qed

lemma isAllowedDay_iff:
  "isAllowedDay d \<longleftrightarrow>
     trim (toLowerCase d) \<in> {js ''viernes'', js ''vienes'', miercoles, js ''miercoles''}"
  by (auto simp: isAllowedDay_def allowedDays_def miercoles_def toLowerCase_def lowerChar_def js_def)

lemma normalizeDayName_values:
  "normalizeDayName d =
     (if trim (toLowerCase d) = js ''vienes'' \<or> trim (toLowerCase d) = js ''viernes'' then js ''viernes''
      else if trim (toLowerCase d) = js ''miercoles'' \<or> trim (toLowerCase d) = miercoles then miercoles
      else trim (toLowerCase d))"
  by (auto simp: normalizeDayName_def dayMappings_def miercoles_def js_def Let_def)

lemmas event_defs = parseEventFromMessage_def event_step_def game_def includes_str.simps startsWith.simps
  toLowerCase_def lowerChar_def trim_def replaceFirst_def diaLabel_def horaLabel_def lugarLabel_def
  numberedLine_def playerLine_def editedMark_def test_def ichr_def canonicalize_def upperChar_def re_defs
  optional_def

lemma loop_miercoles:
  "event_loop (split 10 (content (game (js ''miercoles''))))
      \<lparr>f_eventName = [], f_dayOfWeek = [], f_time = [], f_location = [], f_players = []\<rparr> =
   Inr \<lparr>f_eventName = js ''Pichanga'', f_dayOfWeek = js ''miercoles'', f_time = js ''9:00'', f_location = [],
        f_players = [js ''Alex'', js ''Moises(4)'']\<rparr>"
  by (simp add: event_defs js_def Let_def)

lemma parse_total:
  "\<exists>f. event_loop (split 10 (content message))
          \<lparr>f_eventName = [], f_dayOfWeek = [], f_time = [], f_location = [], f_players = []\<rparr> = Inr f \<and>
       (isAllowedDay (f_dayOfWeek f) \<longrightarrow>
          (\<exists>ev. parseEventFromMessage message = Some ev \<and>
                dayOfWeek ev = normalizeDayName (f_dayOfWeek f))) \<and>
       (\<not> isAllowedDay (f_dayOfWeek f) \<longrightarrow> parseEventFromMessage message = None)"
proof -
  obtain f where "event_loop (split 10 (content message))
          \<lparr>f_eventName = [], f_dayOfWeek = [], f_time = [], f_location = [], f_players = []\<rparr> = Inr f"
    using event_loop_total by blast
  then show ?thesis by (auto simp: parseEventFromMessage_def)
qed

lemmas day_defs = isAllowedDay_def allowedDays_def normalizeDayName_def dayMappings_def
  extractDateFromTimestamp_def cleanTimestamp_def replaceAll_def miercoles_def

lemma parse_games:
  "map_option dayOfWeek (parseEventFromMessage (game (js ''miercoles''))) = Some miercoles"
  "map_option dayOfWeek (parseEventFromMessage (game miercoles)) = Some miercoles"
  "map_option players (parseEventFromMessage (game miercoles)) = Some [js ''Alex'', js ''Moises(4)'']"
  "map_option eventDate (parseEventFromMessage (game miercoles)) = Some (js ''25/07/25'')"
  "parseEventFromMessage (game (js ''lunes'')) = None"
  by (simp_all add: event_defs day_defs js_def Let_def)

lemma collect_games:
  "map dayOfWeek (collectEvents [game (js ''lunes''), game (js ''miercoles''), game miercoles]) = [miercoles, miercoles]"
  using parse_games by (auto simp: collectEvents_def List.map_filter_def)

text \<open>
  C6. Day normalisation and the day filter lower-case and trim the day, so that letter
  case and surrounding white space make no difference. "miercoles" and its accented
  spelling normalise to the accented spelling and both are allowed; the allowed days are
  exactly those two and "viernes" with its misspelling "vienes", so "lunes" is not. A
  message always scans without error, and gives an event (with the normalised day)
  exactly when the day it names is allowed; otherwise it gives none, and the loop over
  the messages goes on without a record for it.
\<close>

theorem day_filter:
  "(toLowerCase d = toLowerCase d' \<longrightarrow>
      normalizeDayName d = normalizeDayName d' \<and> isAllowedDay d = isAllowedDay d') \<and>
   (list_all isWhiteSpace ws \<and> list_all isWhiteSpace ws' \<longrightarrow>
      normalizeDayName (ws @ d @ ws') = normalizeDayName d \<and>
      isAllowedDay (ws @ d @ ws') = isAllowedDay d) \<and>
   normalizeDayName (js ''miercoles'') = miercoles \<and> normalizeDayName miercoles = miercoles \<and>
   (isAllowedDay d \<longleftrightarrow>
      trim (toLowerCase d) \<in> {js ''viernes'', js ''vienes'', miercoles, js ''miercoles''}) \<and>
   isAllowedDay (js ''miercoles'') \<and> isAllowedDay miercoles \<and> \<not> isAllowedDay (js ''lunes'') \<and>
   (\<exists>f. event_loop (split 10 (content message))
          \<lparr>f_eventName = [], f_dayOfWeek = [], f_time = [], f_location = [], f_players = []\<rparr> = Inr f \<and>
       (isAllowedDay (f_dayOfWeek f) \<longrightarrow>
          (\<exists>ev. parseEventFromMessage message = Some ev \<and>
                dayOfWeek ev = normalizeDayName (f_dayOfWeek f))) \<and>
       (\<not> isAllowedDay (f_dayOfWeek f) \<longrightarrow> parseEventFromMessage message = None)) \<and>
   map_option dayOfWeek (parseEventFromMessage (game (js ''miercoles''))) = Some miercoles \<and>
   map_option dayOfWeek (parseEventFromMessage (game miercoles)) = Some miercoles \<and>
   parseEventFromMessage (game (js ''lunes'')) = None \<and>
   map dayOfWeek (collectEvents [game (js ''lunes''), game (js ''miercoles''), game miercoles]) =
     [miercoles, miercoles]"
proof -
  have 1: "toLowerCase d = toLowerCase d' \<longrightarrow>
      normalizeDayName d = normalizeDayName d' \<and> isAllowedDay d = isAllowedDay d'"
    by (simp add: normalizeDayName_def isAllowedDay_def)
  have 2: "list_all isWhiteSpace ws \<and> list_all isWhiteSpace ws' \<longrightarrow>
      normalizeDayName (ws @ d @ ws') = normalizeDayName d \<and>
      isAllowedDay (ws @ d @ ws') = isAllowedDay d"
    by (simp add: normalizeDayName_def isAllowedDay_def normalized_pad)
  have 3: "normalizeDayName (js ''miercoles'') = miercoles" "normalizeDayName miercoles = miercoles"
    "isAllowedDay (js ''miercoles'')" "isAllowedDay miercoles" "\<not> isAllowedDay (js ''lunes'')"
    by (simp_all add: day_defs toLowerCase_def lowerChar_def trim_def isWhiteSpace_def js_def)
  show ?thesis
    using 1 2 3 isAllowedDay_iff [of d] parse_total [of message] parse_games collect_games
    by (simp only: simp_thms)
qed

theorem day_filter_witness:
  "toLowerCase (js ''MIERCOLES'') = toLowerCase (js ''miercoles'') \<and>
   normalizeDayName (js ''MIERCOLES'') = normalizeDayName (js ''miercoles'') \<and>
   isAllowedDay (js ''MIERCOLES'') \<and>
   list_all isWhiteSpace (js '' '') \<and> list_all isWhiteSpace (js ''  '') \<and>
   normalizeDayName (js '' '' @ js ''MIERCOLES'' @ js ''  '') = miercoles \<and>
   isAllowedDay (js '' '' @ js ''MIERCOLES'' @ js ''  '') \<and>
   \<not> isAllowedDay (js ''lunes'') \<and>
   parseEventFromMessage (game (js ''lunes'')) = None \<and>
   (\<exists>f. event_loop (split 10 (content (game (js ''lunes''))))
          \<lparr>f_eventName = [], f_dayOfWeek = [], f_time = [], f_location = [], f_players = []\<rparr> = Inr f \<and>
        \<not> isAllowedDay (f_dayOfWeek f))"
proof -
  have l: "toLowerCase (js ''MIERCOLES'') = toLowerCase (js ''miercoles'')"
    by (simp add: toLowerCase_def lowerChar_def js_def)
  have w: "list_all isWhiteSpace (js '' '')" "list_all isWhiteSpace (js ''  '')"
    by (simp_all add: js_def isWhiteSpace_def)
  have f: "event_loop (split 10 (content (game (js ''lunes''))))
      \<lparr>f_eventName = [], f_dayOfWeek = [], f_time = [], f_location = [], f_players = []\<rparr> =
   Inr \<lparr>f_eventName = js ''Pichanga'', f_dayOfWeek = js ''lunes'', f_time = js ''9:00'', f_location = [],
        f_players = [js ''Alex'', js ''Moises(4)'']\<rparr>"
    by (simp add: event_defs js_def Let_def)
  show ?thesis
    using day_filter [of "js ''MIERCOLES''" "js ''miercoles''" "js '' ''" "js ''  ''" "game (js ''lunes'')"] l w
    unfolding f by auto
qed

section \<open>Totality of the timestamp parser\<close>

lemma sound_caps_Nil: "sound_caps r []"
  by (simp add: sound_caps_def)

lemma sound_caps_Seq: "sound_caps a d \<Longrightarrow> sound_caps b e \<Longrightarrow> sound_caps (Seq a b) (e @ d)"
  by (fastforce simp: sound_caps_def)

lemma sound_caps_Grp: "sound_caps r d \<Longrightarrow> w \<in> lang r \<Longrightarrow> sound_caps (Grp n r) ((n, w) # d)"
  by (fastforce simp: sound_caps_def)

lemma lang_Rep_Nil: "[] \<in> lang (Rep lo hi g r)"
proof -
  have "[] = concat ([] :: jsstring list) \<and> set ([] :: jsstring list) \<subseteq> lang r \<and>
        (\<forall>h. hi = Some h \<longrightarrow> length ([] :: jsstring list) \<le> h)" by simp
  then show ?thesis unfolding lang.simps by blast
qed

lemma lang_Rep_more:
  assumes "hi \<noteq> Some 0" "p \<in> lang r" "q \<in> lang (Rep lo' (map_option (\<lambda>h. h - 1) hi) g r)"
  shows "p @ q \<in> lang (Rep lo hi g r)"
proof -
  from assms(3) obtain ws where ws: "q = concat ws" "set ws \<subseteq> lang r"
    "\<forall>h. map_option (\<lambda>h. h - 1) hi = Some h \<longrightarrow> length ws \<le> h"
    unfolding lang.simps by blast
  have "\<forall>h. hi = Some h \<longrightarrow> length (p # ws) \<le> h"
  proof (intro allI impI)
    fix h assume h: "hi = Some h"
    then have "length ws \<le> h - 1" using ws(3) by simp
    moreover have "h \<noteq> 0" using h assms(1) by simp
    ultimately show "length (p # ws) \<le> h" by simp
  qed
  moreover have "p @ q = concat (p # ws)" using ws(1) by simp
  moreover have "set (p # ws) \<subseteq> lang r" using ws(2) assms(2) by simp
  ultimately show ?thesis unfolding lang.simps by blast
qed

lemma matches_sound:
  "(i', s', c') \<in> set (matches r (i, s, c)) \<Longrightarrow>
     \<exists>w d. s = w @ s' \<and> i' = i + length w \<and> w \<in> lang r \<and> c' = d @ c \<and> sound_caps r d"
proof (induction r "(i, s, c)" arbitrary: i s c i' s' c' rule: matches.induct)
  case (1 P i c)
  then show ?case by simp
next
  case (2 P i x xs c)
  then have "P x" "i' = Suc i" "s' = xs" "c' = c" by (auto split: if_splits)
  then have "x # xs = [x] @ s' \<and> i' = i + length [x] \<and> [x] \<in> lang (Cls P) \<and> c' = [] @ c \<and> sound_caps (Cls P) []"
    by (simp add: sound_caps_Nil)
  then show ?case by blast
next
  case (3 a b i s c)
  from "3.prems" obtain j t d where x: "(j, t, d) \<in> set (matches a (i, s, c))" "(i', s', c') \<in> set (matches b (j, t, d))"
    by auto
  from "3.hyps"(1) [OF x(1)] obtain p e where p: "s = p @ t" "j = i + length p" "p \<in> lang a" "d = e @ c" "sound_caps a e"
    by blast
  from "3.hyps"(2) [OF x(1) x(2)] obtain q f where q: "t = q @ s'" "i' = j + length q" "q \<in> lang b" "c' = f @ d" "sound_caps b f"
    by blast
  have "p @ q \<in> lang (Seq a b)" using p(3) q(3) by auto
  moreover have "sound_caps (Seq a b) (f @ e)" using p(5) q(5) by (rule sound_caps_Seq)
  ultimately have "s = (p @ q) @ s' \<and> i' = i + length (p @ q) \<and> p @ q \<in> lang (Seq a b) \<and> c' = (f @ e) @ c \<and>
      sound_caps (Seq a b) (f @ e)"
    using p q by simp
  then show ?case by blast
next
  case (4 n r i s c)
  from "4.prems" obtain j d where x: "(j, s', d) \<in> set (matches r (i, s, c))" "i' = j" "c' = (n, take (j - i) s) # d"
    by auto
  from "4.hyps" [OF x(1)] obtain w e where w: "s = w @ s'" "j = i + length w" "w \<in> lang r" "d = e @ c" "sound_caps r e"
    by blast
  have "take (j - i) s = w" using w(1,2) by simp
  then have "c' = ((n, w) # e) @ c" using x(3) w(4) by simp
  moreover have "sound_caps (Grp n r) ((n, w) # e)" using w(5,3) by (rule sound_caps_Grp)
  ultimately have "s = w @ s' \<and> i' = i + length w \<and> w \<in> lang (Grp n r) \<and> c' = ((n, w) # e) @ c \<and>
      sound_caps (Grp n r) ((n, w) # e)"
    using w x(2) by simp
  then show ?case by blast
next
  case (5 i s c)
  then have "i' = i" "s' = s" "c' = c" by (auto split: if_splits)
  then have "s = [] @ s' \<and> i' = i + length ([] :: jsstring) \<and> [] \<in> lang Bol \<and> c' = [] @ c \<and> sound_caps Bol []"
    by (simp add: sound_caps_Nil)
  then show ?case by blast
next
  case (6 i s c)
  then have "i' = i" "s' = s" "c' = c" by (auto split: if_splits)
  then have "s = [] @ s' \<and> i' = i + length ([] :: jsstring) \<and> [] \<in> lang Eol \<and> c' = [] @ c \<and> sound_caps Eol []"
    by (simp add: sound_caps_Nil)
  then show ?case by blast
next
  case (7 lo hi g r i s c)
  have stop: "\<exists>w d. s = w @ s \<and> i = i + length w \<and> w \<in> lang (Rep lo hi g r) \<and> c = d @ c \<and> sound_caps (Rep lo hi g r) d"
  proof -
    have "s = [] @ s \<and> i = i + length ([] :: jsstring) \<and> [] \<in> lang (Rep lo hi g r) \<and> c = [] @ c \<and>
          sound_caps (Rep lo hi g r) []"
      using lang_Rep_Nil [of lo hi g r] by (simp add: sound_caps_Nil)
    then show ?thesis by blast
  qed
  show ?case
  proof (cases "hi = Some 0")
    case True
    with "7.prems" have "i' = i" "s' = s" "c' = c" by simp_all
    with stop show ?thesis by simp
  next
    case False
    have "(i', s', c') = (i, s, c) \<or> (\<exists>j t d. (j, t, d) \<in> set (matches r (i, s, c)) \<and> length t < length s \<and>
            (i', s', c') \<in> set (matches (Rep (lo - 1) (map_option (\<lambda>h. h - 1) hi) g r) (j, t, d)))"
    proof -
      have eq: "matches (Rep lo hi g r) (i, s, c) =
        (let more = concat (map (\<lambda>(i', s', c').
                         if length s' < length s
                         then matches (Rep (lo - 1) (map_option (\<lambda>h. h - 1) hi) g r) (i', s', c')
                         else [])
                       (matches r (i, s, c)));
               stop = (if lo = 0 then [(i, s, c)] else [])
           in if g then more @ stop else stop @ more)"
        using False by (simp only: matches.simps(7) [of lo hi g r i s c] if_False)
      show ?thesis
        using "7.prems" unfolding eq
        by (auto simp del: matches.simps simp: Let_def split: if_splits)
    qed
    then show ?thesis
    proof
      assume "(i', s', c') = (i, s, c)"
      with stop show ?thesis by simp
    next
      assume "\<exists>j t d. (j, t, d) \<in> set (matches r (i, s, c)) \<and> length t < length s \<and>
            (i', s', c') \<in> set (matches (Rep (lo - 1) (map_option (\<lambda>h. h - 1) hi) g r) (j, t, d))"
      then obtain j t d where x: "(j, t, d) \<in> set (matches r (i, s, c))" "length t < length s"
        "(i', s', c') \<in> set (matches (Rep (lo - 1) (map_option (\<lambda>h. h - 1) hi) g r) (j, t, d))" by blast
      from "7.hyps"(1) [OF False x(1)] obtain p e where p: "s = p @ t" "j = i + length p" "p \<in> lang r" "d = e @ c" "sound_caps r e"
        by blast
      from "7.hyps"(2) [OF False x(1) refl refl x(2) x(3)] obtain q f where q: "t = q @ s'" "i' = j + length q"
        "q \<in> lang (Rep (lo - 1) (map_option (\<lambda>h. h - 1) hi) g r)" "c' = f @ d"
        "sound_caps (Rep (lo - 1) (map_option (\<lambda>h. h - 1) hi) g r) f"
        by blast
      have "p @ q \<in> lang (Rep lo hi g r)" using False p(3) q(3) by (rule lang_Rep_more)
      moreover have "sound_caps (Rep lo hi g r) (f @ e)"
        using p(5) q(5) by (fastforce simp: sound_caps_def)
      ultimately have "s = (p @ q) @ s' \<and> i' = i + length (p @ q) \<and> p @ q \<in> lang (Rep lo hi g r) \<and>
          c' = (f @ e) @ c \<and> sound_caps (Rep lo hi g r) (f @ e)"
        using p q by simp
      then show ?thesis by blast
    qed
  qed
qed

lemma search_from_sound:
  "search_from r i s = Some (j, e, rest, c) \<Longrightarrow> sound_caps r c"
proof (induction s arbitrary: i)
  case Nil
  then have "(e, rest, c) \<in> set (matches r (i, [], []))"
    by (auto simp: attempt_def first_way_def split: list.splits)
  from matches_sound [OF this] show ?case by auto
next
  case (Cons x xs)
  show ?case
  proof (cases "attempt r i (x # xs)")
    case None
    with Cons.prems have "search_from r (Suc i) xs = Some (j, e, rest, c)" by simp
    then show ?thesis by (rule Cons.IH)
  next
    case (Some m)
    with Cons.prems have "m = (e, rest, c)" by simp
    with Some have "(e, rest, c) \<in> set (matches r (i, x # xs, []))"
      by (auto simp: attempt_def first_way_def split: list.splits)
    from matches_sound [OF this] show ?thesis by auto
  qed
qed

lemma capture_sound:
  assumes "match r s = Some m" "capture m n = Some v" "0 < n"
  shows "\<exists>b. (n, b) \<in> set (groups r) \<and> v \<in> lang b"
proof -
  from assms(1) obtain j e rest c where s: "search_from r 0 s = Some (j, e, rest, c)" "m = (0, take (e - j) (drop j s)) # c"
    by (auto simp: match_def)
  from assms(2,3) s(2) have "map_of c n = Some v" by (simp add: capture_def)
  then have "(n, v) \<in> set c" by (rule map_of_SomeD)
  with search_from_sound [OF s(1)] show ?thesis by (auto simp: sound_caps_def)
qed

lemma lang_digits:
  "w \<in> lang (Rep lo (Some h) g (Cls P)) \<Longrightarrow> list_all P w \<and> length w \<le> h"
proof -
  assume "w \<in> lang (Rep lo (Some h) g (Cls P))"
  then obtain ws where ws: "w = concat ws" "set ws \<subseteq> {[x] | x. P x}" "length ws \<le> h"
    by auto
  have "list_all P (concat ws) \<and> length (concat ws) = length ws" using ws(2)
    by (induction ws) auto
  then show ?thesis using ws by simp
qed

lemma lang_SeqD: "w \<in> lang (Seq a b) \<Longrightarrow> \<exists>u v. w = u @ v \<and> u \<in> lang a \<and> v \<in> lang b"
  by auto

lemma lang_chr: "w \<in> lang (chr k) \<Longrightarrow> w = [k]"
  by (simp add: chr_def)

lemma date_shape:
  assumes "v \<in> lang datePattern"
  shows "\<exists>a b c. v = a @ 47 # b @ 47 # c \<and> list_all isDigit a \<and> length a \<le> 2 \<and>
           list_all isDigit b \<and> length b \<le> 2 \<and> list_all isDigit c \<and> length c \<le> 4"
proof -
  from assms have "v \<in> lang (Seq (between 1 2 digit) (Seq (chr 47) (Seq (between 1 2 digit) (Seq (chr 47) (between 2 4 digit)))))"
    by (simp only: datePattern_def seqs.simps)
  then obtain a r1 where 1: "v = a @ r1" "a \<in> lang (between 1 2 digit)"
      "r1 \<in> lang (Seq (chr 47) (Seq (between 1 2 digit) (Seq (chr 47) (between 2 4 digit))))"
    using lang_SeqD by blast
  from 1(3) obtain k1 r2 where 2: "r1 = k1 @ r2" "k1 \<in> lang (chr 47)"
      "r2 \<in> lang (Seq (between 1 2 digit) (Seq (chr 47) (between 2 4 digit)))"
    using lang_SeqD by blast
  from 2(3) obtain b r3 where 3: "r2 = b @ r3" "b \<in> lang (between 1 2 digit)"
      "r3 \<in> lang (Seq (chr 47) (between 2 4 digit))"
    using lang_SeqD by blast
  from 3(3) obtain k2 c where 4: "r3 = k2 @ c" "k2 \<in> lang (chr 47)" "c \<in> lang (between 2 4 digit)"
    using lang_SeqD by blast
  have "v = a @ 47 # b @ 47 # c"
    using 1(1) 2(1) 3(1) 4(1) lang_chr [OF 2(2)] lang_chr [OF 4(2)] by simp
  moreover have "list_all isDigit a \<and> length a \<le> 2" "list_all isDigit b \<and> length b \<le> 2"
    "list_all isDigit c \<and> length c \<le> 4"
    using 1(2) 3(2) 4(3) lang_digits unfolding between_def digit_def by blast+
  ultimately show ?thesis by blast
qed

text \<open>The parts of a captured time: two or three runs of at most two digits.\<close>

lemma time_shape:
  assumes "v \<in> lang timePattern"
  shows "\<exists>a b c. v = a @ 58 # b @ 58 # c \<and> list_all isDigit a \<and> length a \<le> 2 \<and>
           list_all isDigit b \<and> length b \<le> 2 \<and> list_all isDigit c \<and> length c \<le> 2"
proof -
  from assms have "v \<in> lang (Seq (between 1 2 digit) (Seq (chr 58) (Seq (between 2 2 digit) (Seq (chr 58) (between 2 2 digit)))))"
    by (simp only: timePattern_def seqs.simps)
  then obtain a r1 where 1: "v = a @ r1" "a \<in> lang (between 1 2 digit)"
      "r1 \<in> lang (Seq (chr 58) (Seq (between 2 2 digit) (Seq (chr 58) (between 2 2 digit))))"
    using lang_SeqD by blast
  from 1(3) obtain k1 r2 where 2: "r1 = k1 @ r2" "k1 \<in> lang (chr 58)"
      "r2 \<in> lang (Seq (between 2 2 digit) (Seq (chr 58) (between 2 2 digit)))"
    using lang_SeqD by blast
  from 2(3) obtain b r3 where 3: "r2 = b @ r3" "b \<in> lang (between 2 2 digit)"
      "r3 \<in> lang (Seq (chr 58) (between 2 2 digit))"
    using lang_SeqD by blast
  from 3(3) obtain k2 c where 4: "r3 = k2 @ c" "k2 \<in> lang (chr 58)" "c \<in> lang (between 2 2 digit)"
    using lang_SeqD by blast
  have "v = a @ 58 # b @ 58 # c"
    using 1(1) 2(1) 3(1) 4(1) lang_chr [OF 2(2)] lang_chr [OF 4(2)] by simp
  moreover have "list_all isDigit a \<and> length a \<le> 2" "list_all isDigit b \<and> length b \<le> 2"
    "list_all isDigit c \<and> length c \<le> 2"
    using 1(2) 3(2) 4(3) lang_digits unfolding between_def digit_def by blast+
  ultimately show ?thesis by blast
qed

lemma short_time_shape:
  assumes "v \<in> lang (seqs [between 1 2 digit, chr 58, between 2 2 digit])"
  shows "\<exists>a b. v = a @ 58 # b \<and> list_all isDigit a \<and> length a \<le> 2 \<and>
           list_all isDigit b \<and> length b \<le> 2"
proof -
  from assms have "v \<in> lang (Seq (between 1 2 digit) (Seq (chr 58) (between 2 2 digit)))"
    by (simp only: seqs.simps)
  then obtain a r1 where 1: "v = a @ r1" "a \<in> lang (between 1 2 digit)"
      "r1 \<in> lang (Seq (chr 58) (between 2 2 digit))"
    using lang_SeqD by blast
  from 1(3) obtain k1 b where 2: "r1 = k1 @ b" "k1 \<in> lang (chr 58)" "b \<in> lang (between 2 2 digit)"
    using lang_SeqD by blast
  have "v = a @ 58 # b"
    using 1(1) 2(1) lang_chr [OF 2(2)] by simp
  moreover have "list_all isDigit a \<and> length a \<le> 2" "list_all isDigit b \<and> length b \<le> 2"
    using 1(2) 2(3) lang_digits unfolding between_def digit_def by blast+
  ultimately show ?thesis by blast
qed

lemma digitsValue_snoc: "digitsValue (ds @ [c]) = 10 * digitsValue ds + (int c - 48)"
  by (simp add: digitsValue_def)

lemma digitsValue_bound: "list_all isDigit ds \<Longrightarrow> 0 \<le> digitsValue ds \<and> digitsValue ds < 10 ^ length ds"
proof (induction ds rule: rev_induct)
  case Nil
  then show ?case by (simp add: digitsValue_def)
next
  case (snoc c ds)
  then have "0 \<le> digitsValue ds" "digitsValue ds + 1 \<le> 10 ^ length ds" "48 \<le> c" "c \<le> 57"
    by (simp_all add: isDigit_def)
  then show ?case by (simp add: digitsValue_snoc)
qed

lemma Number_bound:
  assumes "list_all isDigit ds" "length ds \<le> k"
  shows "\<exists>n. Number ds = Some n \<and> 0 \<le> n \<and> n < 10 ^ k"
proof (cases "ds = []")
  case True
  then show ?thesis by (simp add: Number_def trim_def)
next
  case False
  have "(10::int) ^ length ds \<le> 10 ^ k" using assms(2) by (simp add: power_increasing)
  moreover have "0 \<le> digitsValue ds" "digitsValue ds < 10 ^ length ds"
    using digitsValue_bound [OF assms(1)] by simp_all
  ultimately have "0 \<le> digitsValue ds \<and> digitsValue ds < 10 ^ k" by linarith
  then show ?thesis
    using Number_digits [OF assms(1) False] by simp
qed

lemma daysBeforeMonth_bound: "mn < 12 \<Longrightarrow> 0 \<le> daysBeforeMonth y mn \<and> daysBeforeMonth y mn \<le> 335"
proof -
  assume "mn < 12"
  then consider "mn = 0" | "mn = 1" | "mn = 2" | "mn = 3" | "mn = 4" | "mn = 5" | "mn = 6" | "mn = 7"
    | "mn = 8" | "mn = 9" | "mn = 10" | "mn = 11" by atomize_elim arith
  then show ?thesis by cases (simp_all add: daysBeforeMonth_def)
qed

lemma DayFromYear_bound: "0 \<le> y \<Longrightarrow> y \<le> 10100 \<Longrightarrow> - 800000 \<le> DayFromYear y \<and> DayFromYear y \<le> 3000000"
proof -
  assume y: "0 \<le> y" "y \<le> 10100"
  define a b c where "a = (y - 1969) div 4" and "b = (y - 1901) div 100" and "c = (y - 1601) div 400"
  have a: "- 493 \<le> a" "a \<le> 2033" using y unfolding a_def by linarith+
  have b: "- 20 \<le> b" "b \<le> 82" using y unfolding b_def by linarith+
  have c: "- 5 \<le> c" "c \<le> 22" using y unfolding c_def by linarith+
  have "DayFromYear y = 365 * (y - 1970) + a - b + c"
    by (simp add: DayFromYear_def a_def b_def c_def)
  then show ?thesis using y a b c by auto
qed

lemma newDate_valid:
  assumes "0 \<le> y" "y < 10000" "0 \<le> mo" "mo < 100" "0 \<le> d" "d < 100"
    "0 \<le> h" "h < 112" "0 \<le> mi" "mi < 100" "0 \<le> se" "se < 100"
  shows "\<exists>t. newDate (Some (if y < 100 then 2000 + y else y)) (Some (mo - 1)) (Some d) h mi se = Some t"
proof -
  let ?y = "if y < 100 then 2000 + y else y"
  have y: "100 \<le> ?y" "?y < 10000" using assms(1,2) by auto
  let ?ym = "?y + (mo - 1) div 12"
  have ym: "0 \<le> ?ym" "?ym \<le> 10100" using y assms(3,4) by linarith+
  have mn: "nat ((mo - 1) mod 12) < 12" by simp
  let ?day = "MakeDay ?y (mo - 1) d"
  have day: "- 800001 \<le> ?day" "?day \<le> 3000500"
    using DayFromYear_bound [OF ym] daysBeforeMonth_bound [OF mn, of ?ym] assms(5,6)
    by (simp_all add: MakeDay_def Let_def)
  let ?time = "MakeTime h mi se 0"
  have time: "0 \<le> ?time" "?time \<le> 500000000"
    using assms(7-12) by (simp_all add: MakeTime_def)
  have "\<bar>MakeDate ?day ?time\<bar> \<le> 8640000000000000"
    using day time by (simp add: MakeDate_def)
  then have "TimeClip (MakeDate ?day ?time) = Some (MakeDate ?day ?time)"
    by (simp add: TimeClip_def)
  moreover have "newDate (Some ?y) (Some (mo - 1)) (Some d) h mi se = TimeClip (MakeDate ?day ?time)"
    using y by (simp add: newDate_def)
  ultimately show ?thesis by simp
qed

lemma adjustHours_bound: "0 \<le> h \<Longrightarrow> h < 100 \<Longrightarrow> 0 \<le> adjustHours p h \<and> adjustHours p h < 112"
  by (simp add: adjustHours_def Let_def split: option.splits)

lemma date_parts:
  assumes "dp \<in> lang datePattern"
  shows "\<exists>d mo y. map Number (split 47 dp) = [Some d, Some mo, Some y] \<and>
           0 \<le> d \<and> d < 100 \<and> 0 \<le> mo \<and> mo < 100 \<and> 0 \<le> y \<and> y < 10000"
proof -
  from date_shape [OF assms] obtain a b c where s: "dp = a @ 47 # b @ 47 # c"
    "list_all isDigit a" "length a \<le> 2" "list_all isDigit b" "length b \<le> 2"
    "list_all isDigit c" "length c \<le> 4" by blast
  have "split 47 dp = [a, b, c]"
    unfolding s(1) using digits_no_sep [OF s(2)] digits_no_sep [OF s(4)] digits_no_sep [OF s(6)]
    by (simp add: split_sep split_none)
  moreover from Number_bound [OF s(2,3)] obtain d where "Number a = Some d" "0 \<le> d" "d < 100" by auto
  moreover from Number_bound [OF s(4,5)] obtain mo where "Number b = Some mo" "0 \<le> mo" "mo < 100" by auto
  moreover from Number_bound [OF s(6,7)] obtain y where "Number c = Some y" "0 \<le> y" "y < 10000" by auto
  ultimately show ?thesis by simp
qed

lemma time_parts:
  assumes "tp \<in> lang timePattern \<or> tp \<in> lang (seqs [between 1 2 digit, chr 58, between 2 2 digit])"
  shows "\<exists>h mi se. 0 \<le> h \<and> h < 100 \<and> 0 \<le> mi \<and> mi < 100 \<and> 0 \<le> se \<and> se < 100 \<and>
           orZero (item (map Number (split 58 tp)) 0) = h \<and>
           orZero (item (map Number (split 58 tp)) 1) = mi \<and>
           orZero (item (map Number (split 58 tp)) 2) = se"
  using assms
proof
  assume "tp \<in> lang timePattern"
  from time_shape [OF this] obtain a b c where s: "tp = a @ 58 # b @ 58 # c"
    "list_all isDigit a" "length a \<le> 2" "list_all isDigit b" "length b \<le> 2"
    "list_all isDigit c" "length c \<le> 2" by blast
  have "split 58 tp = [a, b, c]"
    unfolding s(1) using digits_no_sep [OF s(2)] digits_no_sep [OF s(4)] digits_no_sep [OF s(6)]
    by (simp add: split_sep split_none)
  moreover from Number_bound [OF s(2,3)] obtain h where "Number a = Some h" "0 \<le> h" "h < 100" by auto
  moreover from Number_bound [OF s(4,5)] obtain mi where "Number b = Some mi" "0 \<le> mi" "mi < 100" by auto
  moreover from Number_bound [OF s(6,7)] obtain se where "Number c = Some se" "0 \<le> se" "se < 100" by auto
  ultimately show ?thesis by (simp add: item_def orZero_def)
next
  assume "tp \<in> lang (seqs [between 1 2 digit, chr 58, between 2 2 digit])"
  from short_time_shape [OF this] obtain a b where s: "tp = a @ 58 # b"
    "list_all isDigit a" "length a \<le> 2" "list_all isDigit b" "length b \<le> 2" by blast
  have "split 58 tp = [a, b]"
    unfolding s(1) using digits_no_sep [OF s(2)] digits_no_sep [OF s(4)]
    by (simp add: split_sep split_none)
  moreover from Number_bound [OF s(2,3)] obtain h where "Number a = Some h" "0 \<le> h" "h < 100" by auto
  moreover from Number_bound [OF s(4,5)] obtain mi where "Number b = Some mi" "0 \<le> mi" "mi < 100" by auto
  ultimately show ?thesis by (simp add: item_def orZero_def)
qed

lemma firstMatch_some: "firstMatch fs s = Some m \<Longrightarrow> \<exists>f \<in> set fs. match f s = Some m"
  by (induction fs) (auto split: option.splits)

lemma groups_formats:
  "f \<in> set formats \<Longrightarrow>
     set (groups f) \<subseteq> {(1, datePattern), (2, timePattern),
                        (2, seqs [between 1 2 digit, chr 58, between 2 2 digit]), (3, meridiemPattern)} \<and>
     1 \<in> sets_groups f"
  by (auto simp: formats_def formatFull_def formatNoSeconds_def formatNoMeridiem_def formatDateOnly_def
      datePattern_def timePattern_def meridiemPattern_def between_def chr_def ichr_def many_def optional_def
      digit_def space_def)

lemma matched_valid:
  assumes "firstMatch formats (cleanTimestamp stamp) = Some m"
  shows "\<exists>t. parseTimestamp_try now stamp = Inr (Some t, [])"
proof -
  from firstMatch_some [OF assms] obtain f where f: "f \<in> set formats" "match f (cleanTimestamp stamp) = Some m"
    by blast
  note g = groups_formats [OF f(1)]
  from match_caps [OF f(2)] g obtain dp where dp: "capture m 1 = Some dp" by blast
  from capture_sound [OF f(2) dp] g have "dp \<in> lang datePattern" by auto
  from date_parts [OF this] obtain d mo y where p: "map Number (split 47 dp) = [Some d, Some mo, Some y]"
    "0 \<le> d" "d < 100" "0 \<le> mo" "mo < 100" "0 \<le> y" "y < 10000" by auto
  define hms where "hms = (case capture m 2 of
                            None \<Rightarrow> (0, 0, 0)
                          | Some timePart \<Rightarrow>
                              if timePart = [] then (0, 0, 0)
                              else let timeComponents = map Number (split 58 timePart)
                                   in (adjustHours (capture m 3) (orZero (item timeComponents 0)),
                                       orZero (item timeComponents 1),
                                       orZero (item timeComponents 2)))"
  have hms: "0 \<le> fst hms \<and> fst hms < 112 \<and> 0 \<le> fst (snd hms) \<and> fst (snd hms) < 100 \<and>
             0 \<le> snd (snd hms) \<and> snd (snd hms) < 100"
  proof (cases "capture m 2")
    case None
    then show ?thesis by (simp add: hms_def)
  next
    case (Some tp)
    from capture_sound [OF f(2) Some] g
    have "tp \<in> lang timePattern \<or> tp \<in> lang (seqs [between 1 2 digit, chr 58, between 2 2 digit])"
      by auto
    from time_parts [OF this] obtain h mi se where t: "0 \<le> h" "h < 100" "0 \<le> mi" "mi < 100" "0 \<le> se" "se < 100"
      "orZero (item (map Number (split 58 tp)) 0) = h"
      "orZero (item (map Number (split 58 tp)) 1) = mi"
      "orZero (item (map Number (split 58 tp)) 2) = se" by auto
    show ?thesis
      using Some t adjustHours_bound [OF t(1,2), of "capture m 3"]
      by (simp add: hms_def Let_def)
  qed
  from newDate_valid [OF p(6,7) p(4,5) p(2,3), of "fst hms" "fst (snd hms)" "snd (snd hms)"] hms
  obtain t where t: "newDate (Some (if y < 100 then 2000 + y else y)) (Some (mo - 1)) (Some d)
      (fst hms) (fst (snd hms)) (snd (snd hms)) = Some t" by auto
  have "parseTimestamp_try now stamp =
      Inr (newDate (Some (if y < 100 then 2000 + y else y)) (Some (mo - 1)) (Some d)
             (fst hms) (fst (snd hms)) (snd (snd hms)), [])"
    unfolding parseTimestamp_try_def hms_def
    by (simp add: assms dp [unfolded One_nat_def] p(1) item_def Let_def)
  with t show ?thesis by simp
qed

lemma parseTimestamp_valid:
  "\<exists>t ds. parseTimestamp_try now stamp = Inr (Some t, ds) \<and> parseTimestamp now stamp = (Some t, ds)"
proof (cases "firstMatch formats (cleanTimestamp stamp)")
  case None
  then show ?thesis by (simp add: parseTimestamp_def parseTimestamp_try_def)
next
  case (Some m)
  from matched_valid [OF this, of now] show ?thesis by (auto simp: parseTimestamp_def)
qed

lemma undated_unmatched: "firstMatch formats (cleanTimestamp (js ''ayer, 12:13'')) = None"
  by (simp add: formats_def formatFull_def formatNoSeconds_def formatNoMeridiem_def formatDateOnly_def
      cleanTimestamp_def datePattern_def timePattern_def meridiemPattern_def replaceAll_def trim_def re_defs js_def)

lemma removeDuplicates_single: "removeDuplicates clock [e] = [e]"
  by (simp add: removeDuplicates_def dedup_step_def)

text \<open>
  C9. The timestamp parser returns a valid date for every input string: the body of its
  \<open>try\<close> block never raises (and the \<open>catch\<close> would answer with the current time
  too), and what it builds from a matched text is never an invalid date. When the text
  matches none of the four shapes the result is the current processing time, with one
  diagnostic naming the text. No event is dropped for that: the deduplicator, the only
  stage that parses timestamps before the sort, keeps every key of its input, and keeps
  an event that is alone.
\<close>

theorem parseTimestamp_total:
  "(\<exists>t ds. parseTimestamp_try now stamp = Inr (Some t, ds) \<and> parseTimestamp now stamp = (Some t, ds)) \<and>
   (firstMatch formats (cleanTimestamp stamp) = None \<longrightarrow>
      parseTimestamp now stamp = (Some now, [UnrecognizedFormat stamp])) \<and>
   set (map eventKey (removeDuplicates clock es)) = set (map eventKey es) \<and>
   removeDuplicates clock [e] = [e]"
  using parseTimestamp_valid [of now stamp] removeDuplicates_keys [of clock es]
  by (simp add: parseTimestamp_fallback removeDuplicates_single)

theorem parseTimestamp_total_witness:
  "firstMatch formats (cleanTimestamp (js ''ayer, 12:13'')) = None \<and>
   parseTimestamp 1800000000000 (js ''ayer, 12:13'') =
     (Some 1800000000000, [UnrecognizedFormat (js ''ayer, 12:13'')]) \<and>
   removeDuplicates (\<lambda>t. 1800000000000 + int t) [undated] = [undated]"
  using parseTimestamp_total [of 1800000000000 "js ''ayer, 12:13''" "\<lambda>t. 1800000000000 + int t" "[]" undated]
  by (simp add: undated_unmatched)

section \<open>Player names and aliases\<close>

lemmas clean_defs = cleanPlayerName_def strip_def parenthesised_def bracketed_def braced_def invisibles_def
  trailingGo_def trailingHyphen_def glyphs_def spaces_def capitalize_def replaceAll_def replaceFirst_def
  toLowerCase_def lowerChar_def upperChar_def trim_def ichr_def canonicalize_def re_defs

lemma clean_moises: "cleanPlayerName (js ''  Moises(4) '') = js ''Moises''"
  by (simp add: clean_defs js_def Let_def)

lemma clean_juan: "cleanPlayerName (55357 # 56613 # js ''Juan P'' @ 233 # js ''rez-'') = js ''Juan P'' @ 233 # js ''rez''"
  by (simp add: clean_defs js_def Let_def)

lemma clean_diego: "cleanPlayerName (js ''Diego'') = js ''Die''"
  by (simp add: clean_defs js_def Let_def)

lemma clean_juan_go: "cleanPlayerName (js ''Juan go'') = js ''Juan''"
  by (simp add: clean_defs js_def Let_def)

lemma clean_empty: "cleanPlayerName (js ''(4) -'') = []"
  by (simp add: clean_defs js_def Let_def)

lemma attempt_spaces_none: "s = [] \<or> \<not> isWhiteSpace (hd s) \<Longrightarrow> attempt spaces i s = None"
proof -
  assume a: "s = [] \<or> \<not> isWhiteSpace (hd s)"
  have none: "matches (Cls isWhiteSpace) (i, s, []) = []" using a by (cases s) auto
  have "matches (Rep 1 None True (Cls isWhiteSpace)) (i, s, []) = []"
    by (simp only: matches.simps(7) [of 1 None True "Cls isWhiteSpace" i s "[]"] none Let_def) simp
  then show ?thesis
    by (simp only: attempt_def first_way_def spaces_def many1_def space_def list.case)
qed

lemma replaceAll_from_spaces_id:
  "\<forall>c \<in> set s. \<not> isWhiteSpace c \<Longrightarrow> replaceAll_from spaces r i s = s"
  by (induction s arbitrary: i) (simp_all add: attempt_spaces_none)

lemma replaceAll_spaces_id: "\<forall>c \<in> set s. \<not> isWhiteSpace c \<Longrightarrow> replaceAll spaces r s = s"
  by (simp add: replaceAll_def replaceAll_from_spaces_id)

lemma findAlias_map_of:
  "findAlias table n = map_of (map (\<lambda>(alias, mainName). (toLowerCase alias, mainName)) table) n"
  by (induction table n rule: findAlias.induct) auto

lemma aliases_lower:
  "map (\<lambda>(alias, mainName). (toLowerCase alias, mainName)) playerAliases =
     [(js ''conde'', js ''Spectre''), (js ''spectre'', js ''Spectre''), (js ''dayler'', js ''Dayler''),
      (js ''deyler'', js ''Dayler''), (js ''kenyi'', js ''Sebas''), (js ''sebas'', js ''Sebas''),
      (js ''sebastian'', js ''Sebas'')]"
  by (simp add: playerAliases_def toLowerCase_def lowerChar_def js_def)

lemma lower_letter_not_space: "97 \<le> lowerChar c \<Longrightarrow> lowerChar c \<le> 122 \<Longrightarrow> \<not> isWhiteSpace c"
  using space_lower [of c] by (auto simp: isWhiteSpace_def)

lemma conde_normalized:
  assumes "toLowerCase c = js ''conde''"
  shows "toLowerCase (trim (replaceAll spaces r c)) = js ''conde''"
proof -
  have "\<forall>x \<in> set c. lowerChar x \<in> {99, 111, 110, 100, 101}"
  proof
    fix x assume "x \<in> set c"
    then have "lowerChar x \<in> set (toLowerCase c)" by (simp add: toLowerCase_def)
    then show "lowerChar x \<in> {99, 111, 110, 100, 101}" unfolding assms by (simp add: js_def)
  qed
  then have ns: "\<forall>x \<in> set c. \<not> isWhiteSpace x" using lower_letter_not_space by fastforce
  have ne: "c \<noteq> []" using assms by (auto simp: toLowerCase_def js_def)
  then have "hd c \<in> set c" "last c \<in> set c" by simp_all
  then have "trim c = c" using ns ne by (intro trim_id) auto
  then show ?thesis using assms by (simp add: replaceAll_spaces_id [OF ns])
qed

lemma conde_alias: "toLowerCase c = js ''conde'' \<Longrightarrow> normalizePlayerName c = js ''Spectre''"
  using conde_normalized [of c "js '' ''"]
  by (simp add: normalizePlayerName_def playerAliases_def toLowerCase_def lowerChar_def js_def)

text \<open>
  C8. The alias lookup is an exact match of the lower-cased cleaned token (white space
  collapsed and trimmed) against the lower-cased keys of the alias table, the first
  entry winning. With the table of the source, which maps "conde" to "Spectre", every
  cleaned token that is "conde" in any letter case resolves to "Spectre", and so does
  every raw token that cleans to one. A cleaned token that matches no key resolves to
  its words, split at single spaces, each with its first letter upper-cased and the
  rest lower-cased.
\<close>

theorem alias_resolution:
  "normalizePlayerName c =
     (case map_of (map (\<lambda>(alias, mainName). (toLowerCase alias, mainName)) playerAliases)
             (toLowerCase (trim (replaceAll spaces (js '' '') c))) of
        Some mainName \<Rightarrow> mainName
      | None \<Rightarrow> join (js '' '') (map capitalizeLower (split 32 c))) \<and>
   (toLowerCase c = js ''conde'' \<longrightarrow> normalizePlayerName c = js ''Spectre'') \<and>
   (toLowerCase (cleanPlayerName raw) = js ''conde'' \<longrightarrow>
      normalizePlayerName (cleanPlayerName raw) = js ''Spectre'') \<and>
   (toLowerCase (trim (replaceAll spaces (js '' '') c)) \<notin>
      {js ''conde'', js ''spectre'', js ''dayler'', js ''deyler'', js ''kenyi'', js ''sebas'', js ''sebastian''} \<longrightarrow>
      normalizePlayerName c = join (js '' '') (map capitalizeLower (split 32 c))) \<and>
   normalizePlayerName (cleanPlayerName (js ''CONDE'')) = js ''Spectre'' \<and>
   normalizePlayerName (cleanPlayerName (js ''juan perez'')) = js ''Juan Perez''"
proof -
  have 1: "normalizePlayerName c =
     (case map_of (map (\<lambda>(alias, mainName). (toLowerCase alias, mainName)) playerAliases)
             (toLowerCase (trim (replaceAll spaces (js '' '') c))) of
        Some mainName \<Rightarrow> mainName
      | None \<Rightarrow> join (js '' '') (map capitalizeLower (split 32 c)))"
    by (simp add: normalizePlayerName_def findAlias_map_of)
  have 2: "toLowerCase (trim (replaceAll spaces (js '' '') c)) \<notin>
      {js ''conde'', js ''spectre'', js ''dayler'', js ''deyler'', js ''kenyi'', js ''sebas'', js ''sebastian''} \<longrightarrow>
      normalizePlayerName c = join (js '' '') (map capitalizeLower (split 32 c))"
    unfolding 1 aliases_lower by simp
  have 3: "cleanPlayerName (js ''CONDE'') = js ''Conde''" "cleanPlayerName (js ''juan perez'') = js ''Juan Perez''"
    by (simp_all add: clean_defs js_def Let_def)
  have 4: "toLowerCase (js ''Conde'') = js ''conde''"
    by (simp add: toLowerCase_def lowerChar_def js_def)
  have 5: "normalizePlayerName (js ''Juan Perez'') = js ''Juan Perez''"
    by (simp add: normalizePlayerName_def playerAliases_def capitalizeLower_def spaces_def replaceAll_def
        toLowerCase_def lowerChar_def upperChar_def trim_def re_defs js_def)
  show ?thesis
    using 1 2 conde_alias [of c] conde_alias [of "cleanPlayerName raw"] conde_alias [OF 4]
    unfolding 3 5 by simp
qed

theorem alias_resolution_witness:
  "toLowerCase (js ''CoNdE'') = js ''conde'' \<and> normalizePlayerName (js ''CoNdE'') = js ''Spectre'' \<and>
   toLowerCase (cleanPlayerName (js '' conde(2) '')) = js ''conde'' \<and>
   normalizePlayerName (cleanPlayerName (js '' conde(2) '')) = js ''Spectre'' \<and>
   toLowerCase (trim (replaceAll spaces (js '' '') (js ''luis''))) \<notin>
      {js ''conde'', js ''spectre'', js ''dayler'', js ''deyler'', js ''kenyi'', js ''sebas'', js ''sebastian''} \<and>
   normalizePlayerName (js ''luis'') = js ''Luis''"
proof -
  have a: "toLowerCase (js ''CoNdE'') = js ''conde''"
    by (simp add: toLowerCase_def lowerChar_def js_def)
  have b: "cleanPlayerName (js '' conde(2) '') = js ''Conde''"
    by (simp add: clean_defs js_def Let_def)
  have c: "toLowerCase (js ''Conde'') = js ''conde''"
    by (simp add: toLowerCase_def lowerChar_def js_def)
  have d: "toLowerCase (trim (replaceAll spaces (js '' '') (js ''luis''))) = js ''luis''"
    by (simp add: spaces_def replaceAll_def toLowerCase_def lowerChar_def trim_def re_defs js_def)
  have e: "join (js '' '') (map capitalizeLower (split 32 (js ''luis''))) = js ''Luis''"
    by (simp add: capitalizeLower_def upperChar_def toLowerCase_def lowerChar_def js_def)
  have f: "js ''luis'' \<notin>
      {js ''conde'', js ''spectre'', js ''dayler'', js ''deyler'', js ''kenyi'', js ''sebas'', js ''sebastian''}"
    by (simp add: js_def)
  have w1: "normalizePlayerName (js ''CoNdE'') = js ''Spectre''"
    using alias_resolution [of "js ''CoNdE''" "js '' conde(2) ''"] a by blast
  have w2: "normalizePlayerName (cleanPlayerName (js '' conde(2) '')) = js ''Spectre''"
    using alias_resolution [of "js ''CoNdE''" "js '' conde(2) ''"] c unfolding b by blast
  have w3: "normalizePlayerName (js ''luis'') = js ''Luis''"
    using alias_resolution [of "js ''luis''" "[]"] f unfolding d e by blast
  show ?thesis using a w1 w2 w3 f by (simp add: b c d)
qed

lemma normalize_empty: "normalizePlayerName [] = []"
  by (simp add: normalizePlayerName_def playerAliases_def capitalizeLower_def spaces_def replaceAll_def
      toLowerCase_def lowerChar_def trim_def re_defs js_def)

lemma empty_discarded: "cleanPlayerName p = [] \<Longrightarrow> count_player k m p = m"
  by (simp add: count_player_def normalize_empty Let_def)

lemma trim_ends: "trim s = [] \<or> (\<not> isWhiteSpace (hd (trim s)) \<and> \<not> isWhiteSpace (last (trim s)))"
proof (cases "trim s = []")
  case True
  then show ?thesis by simp
next
  case False
  let ?A = "dropWhile isWhiteSpace s"
  let ?B = "dropWhile isWhiteSpace (rev ?A)"
  have t: "trim s = rev ?B" by (simp add: trim_def)
  then have B: "?B \<noteq> []" using False by simp
  then have A: "?A \<noteq> []" by (metis dropWhile.simps(1) rev_is_Nil_conv)
  have 1: "\<not> isWhiteSpace (hd ?B)" using B by (rule hd_dropWhile)
  have 2: "\<not> isWhiteSpace (hd ?A)" using A by (rule hd_dropWhile)
  obtain pre where pre: "rev ?A = pre @ ?B"
    by (metis takeWhile_dropWhile_id)
  have "last (pre @ ?B) = last ?B" using B by (rule last_appendR)
  then have "last (rev ?A) = last ?B" using pre by metis
  then have "last ?B = hd ?A" using A by (simp add: last_rev)
  then show ?thesis using 1 2 B unfolding t by (simp add: hd_rev last_rev)
qed

lemma trim_trim: "trim (trim s) = trim s"
  using trim_ends [of s] by (cases "trim s = []") (auto simp: trim_id, simp add: trim_def)

lemma set_map_set_subset: "set (map_set m k v) \<subseteq> insert (k, v) (set m)"
  by (induction m k v rule: map_set.induct) auto

lemma count_player_trimmed:
  assumes "trimmed_variations m"
  shows "trimmed_variations (count_player k m p)"
proof -
  let ?n = "normalizePlayerName (cleanPlayerName p)"
  let ?fresh = "\<lparr>name = ?n, cleanNameField = ?n, attendance = 0, events = Some [], variations = Some []\<rparr>"
  have old: "\<forall>v \<in> set (arrayOf (variations st)). trim v = v" if "map_of m ?n = Some st" for st
    using assms map_of_SomeD [OF that] by (auto simp: trimmed_variations_def)
  have "\<forall>v \<in> set (arrayOf (variations st)). trim v = v"
    if "st = (case map_of m ?n of Some st \<Rightarrow> st | None \<Rightarrow> ?fresh)" for st
    using that old by (cases "map_of m ?n") (auto simp: arrayOf_def)
  then have new: "\<forall>v \<in> set (arrayOf (variations st')). trim v = v"
    if "st' = (let playerStats = (case map_of m ?n of Some st \<Rightarrow> st | None \<Rightarrow> ?fresh);
                   counted = playerStats\<lparr>attendance := attendance playerStats + 1\<rparr>;
                   dated = (if includes_item (arrayOf (events counted)) k then counted
                            else counted\<lparr>events := Some (arrayOf (events counted) @ [k])\<rparr>)
               in (if includes_item (arrayOf (variations dated)) (trim p) then dated
                   else dated\<lparr>variations := Some (arrayOf (variations dated) @ [trim p])\<rparr>))" for st'
    unfolding that by (auto simp: Let_def arrayOf_def trim_trim)
  show ?thesis
    unfolding trimmed_variations_def
  proof (intro ballI)
    fix x assume x: "x \<in> set (count_player k m p)"
    show "case x of (n, st) \<Rightarrow> \<forall>v \<in> set (arrayOf (variations st)). trim v = v"
    proof (cases "count_player k m p = m")
      case True
      then show ?thesis using x assms by (auto simp: trimmed_variations_def)
    next
      case False
      then obtain st' where c: "count_player k m p = map_set m ?n st'"
        and st': "st' = (let playerStats = (case map_of m ?n of Some st \<Rightarrow> st | None \<Rightarrow> ?fresh);
                   counted = playerStats\<lparr>attendance := attendance playerStats + 1\<rparr>;
                   dated = (if includes_item (arrayOf (events counted)) k then counted
                            else counted\<lparr>events := Some (arrayOf (events counted) @ [k])\<rparr>)
               in (if includes_item (arrayOf (variations dated)) (trim p) then dated
                   else dated\<lparr>variations := Some (arrayOf (variations dated) @ [trim p])\<rparr>))"
        by (auto simp: count_player_def Let_def split: if_splits)
      from x c set_map_set_subset [of m ?n st'] have "x = (?n, st') \<or> x \<in> set m" by auto
      then show ?thesis using new [OF st'] assms by (auto simp: trimmed_variations_def)
    qed
  qed
qed

lemma processPlayers_trimmed: "trimmed_variations (processPlayers es)"
proof -
  have p: "trimmed_variations (foldl (count_player k) m ps)" if "trimmed_variations m" for k m ps
    using that by (induction ps arbitrary: m) (simp_all add: count_player_trimmed)
  have "trimmed_variations (foldl count_event m es)" if "trimmed_variations m" for m
    using that by (induction es arbitrary: m) (simp_all add: count_event_def p)
  moreover have "trimmed_variations []" by (simp add: trimmed_variations_def)
  ultimately show ?thesis by (simp add: processPlayers_def)
qed

section \<open>Attendance\<close>

lemmas norm_defs = normalizePlayerName_def playerAliases_def capitalizeLower_def spaces_def replaceAll_def
  toLowerCase_def lowerChar_def upperChar_def trim_def re_defs

lemma clean_A: "cleanPlayerName (js ''A'') = js ''A''"
  by (simp add: clean_defs js_def Let_def)

lemma clean_A': "cleanPlayerName (js ''A '') = js ''A''"
  by (simp add: clean_defs js_def Let_def)

lemma clean_B: "cleanPlayerName (js ''B'') = js ''B''"
  by (simp add: clean_defs js_def Let_def)

lemma clean_C: "cleanPlayerName (js ''C'') = js ''C''"
  by (simp add: clean_defs js_def Let_def)

lemma norm_A: "normalizePlayerName (js ''A'') = js ''A''"
  by (simp add: norm_defs js_def Let_def)

lemma norm_B: "normalizePlayerName (js ''B'') = js ''B''"
  by (simp add: norm_defs js_def Let_def)

lemma norm_C: "normalizePlayerName (js ''C'') = js ''C''"
  by (simp add: norm_defs js_def Let_def)

lemma trim_A': "trim (js ''A '') = js ''A''" "trim (js ''A'') = js ''A''" "trim (js ''B'') = js ''B''" "trim (js ''C'') = js ''C''"
  by (simp_all add: trim_def js_def isWhiteSpace_def)

lemma js_eq: "js a = js b \<longleftrightarrow> a = b"
  by (simp add: js_def inj_map_eq_map inj_on_def)

lemma js_Nil: "js a = [] \<longleftrightarrow> a = []"
  by (simp add: js_def)

lemmas count_defs = count_player_def clean_A clean_A' clean_B clean_C norm_A norm_B norm_C
      trim_A' includes_item_def arrayOf_def Let_def js_eq js_Nil

lemma fridays_stats:
  "processPlayers fridays =
     [(js ''A'', \<lparr>name = js ''A'', cleanNameField = js ''A'', attendance = 2,
         events = Some [js ''25/07/25 (viernes)'', js ''01/08/25 (viernes)''], variations = Some [js ''A'']\<rparr>),
      (js ''B'', \<lparr>name = js ''B'', cleanNameField = js ''B'', attendance = 2,
         events = Some [js ''25/07/25 (viernes)'', js ''08/08/25 (viernes)''], variations = Some [js ''B'']\<rparr>),
      (js ''C'', \<lparr>name = js ''C'', cleanNameField = js ''C'', attendance = 1,
         events = Some [js ''01/08/25 (viernes)''], variations = Some [js ''C'']\<rparr>)]"
proof -
  have k: "statsKey (earlier\<lparr>players := ps\<rparr>) = js ''25/07/25 (viernes)''"
    "statsKey (earlier\<lparr>eventDate := js ''01/08/25'', players := ps\<rparr>) = js ''01/08/25 (viernes)''"
    "statsKey (earlier\<lparr>eventDate := js ''08/08/25'', players := ps\<rparr>) = js ''08/08/25 (viernes)''" for ps
    by (simp_all add: statsKey_def earlier_def js_def)
  show ?thesis
    unfolding processPlayers_def fridays_def
    by (simp add: count_event_def k count_defs)
qed

text \<open>
  C3, as the claim states it. For the three Friday games \<open>fridays\<close> the player A is counted
  twice, in two events, as the claim says; the spellings recorded for A are not the two raw
  ones, the one with the space after it is not among them.
\<close>

theorem variations_example_refuted:
  "map_option attendance (map_of (processPlayers fridays) (js ''A'')) = Some 2 \<and>
   map_option (length \<circ> arrayOf \<circ> events) (map_of (processPlayers fridays) (js ''A'')) = Some 2 \<and>
   map_option (set \<circ> arrayOf \<circ> variations) (map_of (processPlayers fridays) (js ''A'')) \<noteq>
     Some {js ''A'', js ''A ''}"
  unfolding fridays_stats by (simp add: arrayOf_def js_eq js_Nil)

text \<open>
  C3, amended. \<open>processPlayers\<close> records every spelling trimmed, whatever the events. For
  the three Friday games with the rosters A and B, A (written with a space after it) and C,
  and B, the player A has attendance 2, two events and the single spelling \<open>A\<close>; B has
  attendance 2 and C attendance 1.
\<close>

theorem attendance_example:
  "trimmed_variations (processPlayers es) \<and>
   processPlayers fridays =
     [(js ''A'', \<lparr>name = js ''A'', cleanNameField = js ''A'', attendance = 2,
         events = Some [js ''25/07/25 (viernes)'', js ''01/08/25 (viernes)''], variations = Some [js ''A'']\<rparr>),
      (js ''B'', \<lparr>name = js ''B'', cleanNameField = js ''B'', attendance = 2,
         events = Some [js ''25/07/25 (viernes)'', js ''08/08/25 (viernes)''], variations = Some [js ''B'']\<rparr>),
      (js ''C'', \<lparr>name = js ''C'', cleanNameField = js ''C'', attendance = 1,
         events = Some [js ''01/08/25 (viernes)''], variations = Some [js ''C'']\<rparr>)]"
  using processPlayers_trimmed fridays_stats by simp

theorem attendance_example_witness:
  "(js ''A'', \<lparr>name = js ''A'', cleanNameField = js ''A'', attendance = 2,
      events = Some [js ''25/07/25 (viernes)'', js ''01/08/25 (viernes)''], variations = Some [js ''A'']\<rparr>)
     \<in> set (processPlayers fridays) \<and>
   trim (js ''A'') = js ''A''"
proof -
  let ?a = "\<lparr>name = js ''A'', cleanNameField = js ''A'', attendance = 2,
      events = Some [js ''25/07/25 (viernes)'', js ''01/08/25 (viernes)''], variations = Some [js ''A'']\<rparr>"
  have t: "trimmed_variations (processPlayers fridays)"
    using attendance_example [of fridays] by blast
  have "hd (processPlayers fridays) = (js ''A'', ?a)"
    using attendance_example [of fridays] by simp
  moreover have "processPlayers fridays \<noteq> []"
    using attendance_example [of fridays] by simp
  ultimately have m: "(js ''A'', ?a) \<in> set (processPlayers fridays)"
    by (metis hd_in_set)
  have "\<forall>v \<in> set (arrayOf (variations ?a)). trim v = v"
    using t m unfolding trimmed_variations_def by blast
  then have "trim (js ''A'') = js ''A''"
    by (simp add: arrayOf_def)
  with m show ?thesis by blast
qed

text \<open>
  C4. The claim says that cleaning removes a trailing \<open>go\<close> only when it is a word of its
  own. The pattern \<open>trailingGo\<close> asks for no white space before the two letters, so
  \<open>cleanPlayerName\<close> also cuts them off the end of a longer word: \<open>Diego\<close> is cleaned to
  \<open>Die\<close> and \<open>Hugo\<close> to \<open>Hu\<close>.
\<close>

theorem cleanPlayerName_go_ending:
  "cleanPlayerName (js ''Diego'') = js ''Die'' \<and> cleanPlayerName (js ''Hugo'') = js ''Hu''"
  by (simp add: clean_defs js_def Let_def)

text \<open>
  The rest of the cleaning is as described: the two examples, a \<open>go\<close> that is a word of its
  own, and a token that is cleaned to the empty text is not counted.
\<close>

lemma cleanPlayerName_examples:
  "cleanPlayerName (js ''  Moises(4) '') = js ''Moises''"
  "cleanPlayerName (55357 # 56613 # js ''Juan P'' @ 233 # js ''rez-'') = js ''Juan P'' @ 233 # js ''rez''"
  "cleanPlayerName (js ''Juan go'') = js ''Juan''"
  "cleanPlayerName (js ''(4) -'') = []"
  "count_player k m (js ''(4) -'') = m"
  using clean_moises clean_juan clean_juan_go clean_empty empty_discarded by simp_all

end
